theory Spec2Isabelle
  imports Main "HOL-Library.Product_Lexorder" "HOL-Library.Multiset"
begin

section \<open>Text, lines and normalisation\<close>

text \<open>
  A JavaScript string is modelled as a \<^typ>\<open>string\<close>, one \<^typ>\<open>char\<close> per code unit
  (code units below 256). \<open>content.split('\n')\<close> always returns at least one line, and
  \<open>lines.join('\n')\<close> puts one line feed between consecutive lines.
\<close>

fun split_lines :: "string \<Rightarrow> string list" where
  "split_lines [] = [[]]"
| "split_lines (c # cs) =
     (if c = CHR 0x0A then [] # split_lines cs
      else (case split_lines cs of
              [] \<Rightarrow> [[c]]
            | l # ls \<Rightarrow> (c # l) # ls))"

fun join_lines :: "string list \<Rightarrow> string" where
  "join_lines [] = []"
| "join_lines [l] = l"
| "join_lines (l # m # ls) = l @ CHR 0x0A # join_lines (m # ls)"

text \<open>
  The white space of \<open>String.prototype.trim\<close> and of the regular expression class
  \<open>\s\<close>, restricted to code units below 256: tab, line feed, vertical tab, form feed,
  carriage return, space and no-break space.
\<close>

definition is_space :: "char \<Rightarrow> bool" where
  "is_space c \<longleftrightarrow>
     c = CHR 0x09 \<or> c = CHR 0x0A \<or> c = CHR 0x0B \<or> c = CHR 0x0C \<or> c = CHR 0x0D
     \<or> c = CHR 0x20 \<or> c = CHR 0xA0"

definition trim :: "string \<Rightarrow> string" where
  "trim s = rev (dropWhile is_space (rev (dropWhile is_space s)))"

text \<open>\<open>s.replace(/\s+/g, ' ')\<close>: every maximal run of white space becomes one space.\<close>

function collapse_spaces :: "string \<Rightarrow> string" where
  "collapse_spaces [] = []"
| "collapse_spaces (c # cs) =
     (if is_space c then CHR 0x20 # collapse_spaces (dropWhile is_space cs)
      else c # collapse_spaces cs)"
  by pat_completeness auto
termination
  by (relation "measure length") (auto simp: length_dropWhile_le less_Suc_eq_le)

definition normalizeContent :: "string \<Rightarrow> string" where
  "normalizeContent content = collapse_spaces (trim content)"

text \<open>
  \<open>Array.prototype.slice\<close>: a negative index counts from the end of the array, and
  every index is clamped to the array.
\<close>

definition relative_index :: "int \<Rightarrow> nat \<Rightarrow> nat" where
  "relative_index i len = (if i < 0 then nat (max (int len + i) 0) else min (nat i) len)"

definition slice :: "'a list \<Rightarrow> int \<Rightarrow> int \<Rightarrow> 'a list" where
  "slice xs start fin =
     (let k = relative_index start (length xs);
          final = relative_index fin (length xs)
      in take (final - k) (drop k xs))"

definition slice_from :: "'a list \<Rightarrow> int \<Rightarrow> 'a list" where
  "slice_from xs start = drop (relative_index start (length xs)) xs"

section \<open>The file and the errors\<close>

text \<open>
  The one file a call works on: its text and the number of \<open>writeFileSync\<close> calls made
  on it so far. Path validation and the existence check are outside the model: the
  path is absolute and names a readable regular file.
\<close>

record file_state =
  content :: string
  writes :: nat

datatype user_error =
    OverlappingRanges int
  | LineNotInOriginal int nat
  | InvalidRange
  | ContentMismatch int string string
  | TargetVanished int
  | InternalError
  | LineNotInFile int nat

section \<open>multireplace_lines_in_file\<close>

record edit =
  line_start :: int
  line_end :: int
  line_start_contents :: string
  contents :: string

record line_shift =
  shift_start :: int
  shift_end :: int
  shift_amount :: int

record edit_result =
  index :: nat
  success :: bool
  error :: "user_error option"
  res_line_start :: int
  res_line_end :: int
  shift :: "int option"

record batch_state =
  workingLines :: "string list"
  lineShifts :: "line_shift list"

record report =
  successful :: nat
  failed :: nat
  outcomes :: "edit_result list"

text \<open>The comparator handed to \<open>edits.sort\<close>.\<close>

definition compare_edits :: "edit \<Rightarrow> edit \<Rightarrow> int" where
  "compare_edits a b =
     (if line_start a < line_start b then -1
      else if line_start a > line_start b then 1
      else if line_end a < line_end b then -1
      else if line_end a > line_end b then 1
      else 0)"

text \<open>
  \<open>Array.prototype.sort\<close> is a stable sort by the comparator; the comparator is the
  lexicographic order on \<open>(line_start, line_end)\<close> (lemma \<open>compare_edits_key\<close>), so the
  sort is the stable insertion sort on that key.
\<close>

definition edit_key :: "edit \<Rightarrow> int \<times> int" where
  "edit_key e = (line_start e, line_end e)"

definition sort_edits :: "edit list \<Rightarrow> edit list" where
  "sort_edits edits = sort_key edit_key edits"

fun check_overlaps :: "int \<Rightarrow> edit list \<Rightarrow> user_error option" where
  "check_overlaps previousEnd [] = None"
| "check_overlaps previousEnd (e # rest) =
     (if line_start e \<le> previousEnd then Some (OverlappingRanges (line_start e))
      else check_overlaps (line_end e) rest)"

text \<open>
  The body of the \<open>try\<close> block for one edit: \<open>Inl\<close> is the error thrown, \<open>Inr\<close> the
  state after the replacement with the shift of the edit. Reading
  \<open>originalLines[line_start - 1]\<close> below line 1 gives \<open>undefined\<close>, which differs from
  every string; normalising it for the message then raises a \<open>TypeError\<close>.
\<close>

definition translate :: "line_shift list \<Rightarrow> edit \<Rightarrow> int" where
  "translate shifts e =
     sum_list (map shift_amount (filter (\<lambda>s. shift_start s \<le> line_start e) shifts))"

definition apply_edit :: "string list \<Rightarrow> batch_state \<Rightarrow> edit \<Rightarrow> user_error + (batch_state \<times> int)" where
  "apply_edit originalLines st e =
     (if line_start e > int (length originalLines) then
        Inl (LineNotInOriginal (line_start e) (length originalLines))
      else if line_end e > int (length originalLines) then
        Inl (LineNotInOriginal (line_end e) (length originalLines))
      else if line_start e > line_end e then Inl InvalidRange
      else if line_start e < 1 then Inl InternalError
      else
        let originalLineContent = originalLines ! nat (line_start e - 1) in
        if originalLineContent \<noteq> line_start_contents e then
          Inl (ContentMismatch (line_start e)
                 (normalizeContent (line_start_contents e))
                 (normalizeContent originalLineContent))
        else
          let working = workingLines st;
              currentStartIndex = line_start e - 1 + translate (lineShifts st) e;
              currentEndIndex = line_end e - 1 + translate (lineShifts st) e
          in
          if currentStartIndex \<ge> int (length working) then
            Inl (TargetVanished (line_start e))
          else
            let currentEndIndex =
                  (if currentEndIndex \<ge> int (length working)
                   then int (length working) - 1 else currentEndIndex);
                originalRangeLength = line_end e - line_start e + 1;
                newContentLength = int (length (split_lines (contents e)));
                sh = newContentLength - originalRangeLength;
                newLines = slice working 0 currentStartIndex
                           @ split_lines (contents e)
                           @ slice_from working (currentEndIndex + 1)
            in Inr (\<lparr>workingLines = newLines,
                      lineShifts = lineShifts st
                        @ [\<lparr>shift_start = line_start e, shift_end = line_end e,
                            shift_amount = sh\<rparr>]\<rparr>, sh))"

text \<open>The loop \<open>for (let i = 0; i < edits.length; i++)\<close>, from index \<open>i\<close> on.\<close>

fun process_edits :: "string list \<Rightarrow> nat \<Rightarrow> batch_state \<Rightarrow> edit list
    \<Rightarrow> batch_state \<times> edit_result list" where
  "process_edits originalLines i st [] = (st, [])"
| "process_edits originalLines i st (e # rest) =
     (case apply_edit originalLines st e of
        Inl err \<Rightarrow>
          (let (st', results) = process_edits originalLines (Suc i) st rest
           in (st', \<lparr>index = i, success = False, error = Some err,
                      res_line_start = line_start e, res_line_end = line_end e,
                      shift = None\<rparr> # results))
      | Inr (st1, sh) \<Rightarrow>
          (let (st', results) = process_edits originalLines (Suc i) st1 rest
           in (st', \<lparr>index = i, success = True, error = None,
                      res_line_start = line_start e, res_line_end = line_end e,
                      shift = Some sh\<rparr> # results)))"

text \<open>
  The whole call. The text returned to the caller is rendered from the report: the two
  counts, then one line per element of \<open>outcomes\<close>, in the order of that list, each
  showing \<open>index\<close>, the range and the shift or the error.
\<close>

definition multireplace_lines_in_file :: "file_state \<Rightarrow> edit list
    \<Rightarrow> (user_error + report) \<times> file_state" where
  "multireplace_lines_in_file fs edits =
     (let originalContent = content fs;
          originalLines = split_lines originalContent;
          sorted_edits = sort_edits edits
      in case check_overlaps (- 1) sorted_edits of
           Some err \<Rightarrow> (Inl err, fs)
         | None \<Rightarrow>
             (let (st, results) =
                    process_edits originalLines 0
                      \<lparr>workingLines = originalLines, lineShifts = []\<rparr> sorted_edits;
                  finalContent = join_lines (workingLines st)
              in (Inr \<lparr>successful = length (filter success results),
                       failed = length (filter (\<lambda>r. \<not> success r) results),
                       outcomes = results\<rparr>,
                  \<lparr>content = finalContent, writes = writes fs + 1\<rparr>)))"

text \<open>
  The shift the loop body computes for an edit it applies:
  \<open>newContentLength - originalRangeLength\<close>.
\<close>

definition edit_shift :: "edit \<Rightarrow> int" where
  "edit_shift e =
     int (length (split_lines (contents e))) - (line_end e - line_start e + 1)"

text \<open>
  What a batch of applied edits, ascending and pairwise apart, makes of the original
  lines from line \<open>prev + 1\<close> on: the untouched lines up to the next edit, its
  replacement lines, and so on, then the untouched rest. The loop is shown to build
  exactly this (lemma \<open>process_edits_rebuild\<close>).
\<close>

fun rebuild :: "string list \<Rightarrow> nat \<Rightarrow> edit list \<Rightarrow> string list" where
  "rebuild orig prev [] = drop prev orig"
| "rebuild orig prev (e # es) =
     take (nat (line_start e - 1) - prev) (drop prev orig)
     @ split_lines (contents e)
     @ rebuild orig (nat (line_end e)) es"


section \<open>insert_into_file\<close>

text \<open>
  \<open>verifyLineContent\<close> of \<open>utils.ts\<close> reads the file again; nothing writes it between
  the two reads, so it sees the lines of the same state.
\<close>

definition verifyLineContent :: "file_state \<Rightarrow> int \<Rightarrow> string \<Rightarrow> user_error + string" where
  "verifyLineContent fs lineNumber expectedContent =
     (let lines = split_lines (content fs) in
      if lineNumber < 1 \<or> lineNumber > int (length lines) then
        Inl (LineNotInFile lineNumber (length lines))
      else
        let actualContent = lines ! nat (lineNumber - 1);
            normalizedActual = collapse_spaces (trim actualContent);
            normalizedExpected = collapse_spaces (trim expectedContent)
        in if normalizedActual \<noteq> normalizedExpected then
             Inl (ContentMismatch lineNumber normalizedExpected normalizedActual)
           else Inr actualContent)"

datatype position = Before | After

text \<open>\<open>lines.splice(insertIndex, 0, x)\<close>: insert one element, the index taken as \<open>slice\<close> does.\<close>

definition splice_insert :: "'a list \<Rightarrow> int \<Rightarrow> 'a \<Rightarrow> 'a list" where
  "splice_insert xs start x =
     (let k = relative_index start (length xs) in take k xs @ x # drop k xs)"

text \<open>The place named in the success message: \<open>end of file\<close>, or the side and the line.\<close>

datatype inserted = EndOfFile | AtLine position int

definition insert_into_file :: "file_state \<Rightarrow> int \<Rightarrow> string \<Rightarrow> position \<Rightarrow> string
    \<Rightarrow> (user_error + inserted) \<times> file_state" where
  "insert_into_file fs line_number line_contents wher new_contents =
     (let lines = split_lines (content fs) in
      if line_number = 0 then
        (Inr EndOfFile,
         \<lparr>content = join_lines (lines @ [new_contents]), writes = writes fs + 1\<rparr>)
      else
        case verifyLineContent fs line_number line_contents of
          Inl err \<Rightarrow> (Inl err, fs)
        | Inr _ \<Rightarrow>
            (let insertIndex = (if wher = After then line_number else line_number - 1)
             in (Inr (AtLine wher line_number),
                 \<lparr>content = join_lines (splice_insert lines insertIndex new_contents),
                  writes = writes fs + 1\<rparr>)))"

section \<open>replace_in_file\<close>

text \<open>
  The regular expression engine is JavaScript's, not this program's; the call takes it
  as a parameter. \<open>compile\<close> is \<open>new RegExp(source, 'g')\<close> (\<open>None\<close> when it throws a
  \<open>SyntaxError\<close>), \<open>match_all r s\<close> is \<open>s.match(r)\<close> with the empty list for \<open>null\<close>
  (a global match never returns an empty array), and \<open>replace_all r s t\<close> is
  \<open>s.replace(r, t)\<close>.
\<close>

record 'r regexp_engine =
  compile :: "string \<Rightarrow> 'r option"
  match_all :: "'r \<Rightarrow> string \<Rightarrow> string list"
  replace_all :: "'r \<Rightarrow> string \<Rightarrow> string \<Rightarrow> string"

datatype replace_error = NoMatchesFound | MultipleMatchesFound nat | ReplacementError

definition replace_in_file :: "'r regexp_engine \<Rightarrow> file_state \<Rightarrow> string \<Rightarrow> string
    \<Rightarrow> bool option \<Rightarrow> (replace_error + nat) \<times> file_state" where
  "replace_in_file eng fs regex_source target multiple =
     (let text = content fs in
      case compile eng regex_source of
        None \<Rightarrow> (Inl ReplacementError, fs)
      | Some regex \<Rightarrow>
          (let matches = match_all eng regex text in
           if matches = [] then (Inl NoMatchesFound, fs)
           else if multiple \<noteq> Some True \<and> length matches > 1 then
             (Inl (MultipleMatchesFound (length matches)), fs)
           else
             (let newContent = replace_all eng regex text target
              in (Inr (length matches),
                  \<lparr>content = newContent, writes = writes fs + 1\<rparr>))))"

text \<open>
  An engine for the patterns that are one ordinary character, with a replacement text
  free of \<open>$\<close>: enough to run the call on a concrete file.
\<close>

definition regex_special :: "char \<Rightarrow> bool" where
  "regex_special c \<longleftrightarrow>
     c \<in> set [CHR 0x5C, CHR ''^'', CHR ''$'', CHR ''.'', CHR ''*'', CHR ''+'', CHR ''?'',
                CHR ''('', CHR '')'', CHR ''['', CHR '']'', CHR ''{'', CHR ''}'', CHR ''|'']"

definition char_engine :: "char regexp_engine" where
  "char_engine =
     \<lparr>compile = (\<lambda>src. case src of [c] \<Rightarrow> if regex_special c then None else Some c
                               | _ \<Rightarrow> None),
      match_all = (\<lambda>c s. map (\<lambda>x. [x]) (filter (\<lambda>x. x = c) s)),
      replace_all = (\<lambda>c s t. concat (map (\<lambda>x. if x = c then t else [x]) s))\<rparr>"

section \<open>matchesPattern of search_directory\<close>

text \<open>
  \<open>pattern.replace(/\*/g, '.*').replace(/\?/g, '.')\<close>, character by character.
\<close>

definition star_to_dot_star :: "string \<Rightarrow> string" where
  "star_to_dot_star p = concat (map (\<lambda>c. if c = CHR ''*'' then ''.*'' else [c]) p)"

definition question_to_dot :: "string \<Rightarrow> string" where
  "question_to_dot p = map (\<lambda>c. if c = CHR ''?'' then CHR ''.'' else c) p"

text \<open>
  The regular expressions the translation produces from a pattern whose only special
  characters are \<open>*\<close>, \<open>?\<close> and \<open>.\<close>: a sequence of ordinary characters, dots and
  starred dots. \<open>parse_regex\<close> reads that fragment of the JavaScript syntax and answers
  \<open>None\<close> outside it. A dot matches any character but a line terminator.
\<close>

datatype atom = Lit char | AnyChar | Star atom

definition line_terminator :: "char \<Rightarrow> bool" where
  "line_terminator c \<longleftrightarrow> c = CHR 0x0A \<or> c = CHR 0x0D"

fun parse_regex :: "string \<Rightarrow> atom list option" where
  "parse_regex [] = Some []"
| "parse_regex (c # cs) =
     (if regex_special c \<and> c \<noteq> CHR ''.'' then None
      else
        let a = (if c = CHR ''.'' then AnyChar else Lit c) in
        case cs of
          d # ds \<Rightarrow>
            if d = CHR ''*'' then map_option (\<lambda>as. Star a # as) (parse_regex ds)
            else map_option (\<lambda>as. a # as) (parse_regex cs)
        | [] \<Rightarrow> Some [a])"

fun atom_matches :: "atom \<Rightarrow> char \<Rightarrow> bool" where
  "atom_matches (Lit c) d = (c = d)"
| "atom_matches AnyChar d = (\<not> line_terminator d)"
| "atom_matches (Star a) d = atom_matches a d"

text \<open>\<open>new RegExp('^' + r + '$').test(s)\<close>: the whole of \<open>s\<close> matches the sequence.\<close>

fun regex_matches :: "atom list \<Rightarrow> string \<Rightarrow> bool" where
  "regex_matches [] s = (s = [])"
| "regex_matches (Star a # as) s =
     (regex_matches as s \<or>
      (case s of [] \<Rightarrow> False
       | d # ds \<Rightarrow> atom_matches a d \<and> regex_matches (Star a # as) ds))"
| "regex_matches (a # as) s =
     (case s of [] \<Rightarrow> False
      | d # ds \<Rightarrow> atom_matches a d \<and> regex_matches as ds)"

text \<open>
  \<open>pattern\<close> is optional: \<open>None\<close> is \<open>undefined\<close>. The result is \<open>None\<close> where the
  translated pattern lies outside the fragment of \<open>parse_regex\<close>.
\<close>

definition matchesPattern :: "string \<Rightarrow> string option \<Rightarrow> bool option" where
  "matchesPattern filename pattern =
     (case pattern of
        None \<Rightarrow> Some True
      | Some p \<Rightarrow>
          if p = [] then Some True
          else
            let regexPattern = question_to_dot (star_to_dot_star p)
            in map_option (\<lambda>r. regex_matches r filename) (parse_regex regexPattern))"

text \<open>
  The contract the specification documents for \<open>matchGlob\<close>, in its own words: \<open>*\<close>
  matches any run of characters, \<open>?\<close> exactly one character, every other character
  itself, and the whole name must match.
\<close>

fun glob_contract :: "string \<Rightarrow> string \<Rightarrow> bool" where
  "glob_contract [] s = (s = [])"
| "glob_contract (p # ps) s =
     (if p = CHR ''*'' then
        glob_contract ps s \<or> (case s of [] \<Rightarrow> False | d # ds \<Rightarrow> glob_contract (p # ps) ds)
      else
        (case s of [] \<Rightarrow> False
         | d # ds \<Rightarrow> (p = CHR ''?'' \<or> p = d) \<and> glob_contract ps ds))"

section \<open>The comparator and the sort key\<close>

lemma compare_edits_key:
  "(compare_edits a b < 0 \<longleftrightarrow> edit_key a < edit_key b)
   \<and> (compare_edits a b = 0 \<longleftrightarrow> edit_key a = edit_key b)
   \<and> (compare_edits a b > 0 \<longleftrightarrow> edit_key b < edit_key a)"
  by (auto simp: compare_edits_def edit_key_def)

section \<open>Lines: splitting and joining\<close>

lemma split_lines_not_Nil: "split_lines s \<noteq> []"
  by (induction s) (auto split: list.splits)

lemma join_lines_Cons: "ls \<noteq> [] \<Longrightarrow> join_lines (l # ls) = l @ CHR 0x0A # join_lines ls"
  by (cases ls) simp_all

lemma join_split_lines: "join_lines (split_lines s) = s"
proof (induction s)
  case Nil
  show ?case by simp
next
  case (Cons c s)
  obtain l ls where sp: "split_lines s = l # ls"
    using split_lines_not_Nil [of s] by (cases "split_lines s") auto
  show ?case
  proof (cases "c = CHR 0x0A")
    case True
    then show ?thesis
      using Cons.IH split_lines_not_Nil [of s] by (simp add: join_lines_Cons)
  next
    case False
    then show ?thesis
      using Cons.IH sp by (cases ls) simp_all
  qed
qed

lemma join_lines_snoc: "ls \<noteq> [] \<Longrightarrow> join_lines (ls @ [x]) = join_lines ls @ CHR 0x0A # x"
proof (induction ls rule: join_lines.induct)
  case 1
  then show ?case by simp
next
  case (2 l)
  show ?case by simp
next
  case (3 l m ls)
  then show ?case by simp
qed

section \<open>The shape of a batch call\<close>

lemma multireplace_Inr:
  assumes "multireplace_lines_in_file fs edits = (Inr rep, fs')"
  obtains st where "check_overlaps (- 1) (sort_edits edits) = None"
    and "process_edits (split_lines (content fs)) 0
           \<lparr>workingLines = split_lines (content fs), lineShifts = []\<rparr> (sort_edits edits)
         = (st, outcomes rep)"
    and "fs' = \<lparr>content = join_lines (workingLines st), writes = writes fs + 1\<rparr>"
    and "successful rep = length (filter success (outcomes rep))"
    and "failed rep = length (filter (\<lambda>r. \<not> success r) (outcomes rep))"
  using assms
  by (auto simp: multireplace_lines_in_file_def Let_def split: option.splits prod.splits)

lemma process_edits_results:
  "process_edits orig i st es = (st', rs) \<Longrightarrow>
   map (\<lambda>r. (index r, res_line_start r, res_line_end r)) rs
     = map (\<lambda>(j, e). (j, line_start e, line_end e)) (enumerate i es)"
  by (induction es arbitrary: i st st' rs) (auto split: sum.splits prod.splits)

section \<open>The overlap check on the sorted batch\<close>

lemma sorted_wrt_insort_key_sym:
  assumes "\<And>a b. S a b \<Longrightarrow> S b a"
  shows "sorted_wrt S (insort_key k x xs) \<longleftrightarrow> (\<forall>y\<in>set xs. S x y) \<and> sorted_wrt S xs"
  by (induction xs) (auto simp: set_insort_key dest: assms)

lemma sorted_wrt_sort_key_sym:
  assumes "\<And>a b. S a b \<Longrightarrow> S b a"
  shows "sorted_wrt S (sort_key k xs) \<longleftrightarrow> sorted_wrt S xs"
  by (induction xs) (simp_all add: sorted_wrt_insort_key_sym [of S, OF assms])

lemma sorted_wrt_sym_nth:
  assumes "\<And>a b. S a b \<Longrightarrow> S b a" and "sorted_wrt S xs"
    and "i < length xs" and "j < length xs" and "i \<noteq> j"
  shows "S (xs ! i) (xs ! j)"
proof (cases "i < j")
  case True
  with assms show ?thesis by (simp add: sorted_wrt_iff_nth_less)
next
  case False
  with assms have "j < i" by simp
  with assms have "S (xs ! j) (xs ! i)" by (simp add: sorted_wrt_iff_nth_less)
  then show ?thesis by (rule assms(1))
qed

lemma sorted_starts_sort_edits: "sorted (map line_start (sort_edits edits))"
proof -
  have "sorted (map edit_key (sort_edits edits))"
    by (simp add: sort_edits_def)
  then have "sorted_wrt (\<lambda>a b. edit_key a \<le> edit_key b) (sort_edits edits)"
    by (simp add: sorted_wrt_map)
  then have "sorted_wrt (\<lambda>a b. line_start a \<le> line_start b) (sort_edits edits)"
    by (rule sorted_wrt_mono_rel [rotated]) (auto simp: edit_key_def)
  then show ?thesis by (simp add: sorted_wrt_map)
qed

lemma check_overlaps_None:
  "sorted (map line_start es) \<Longrightarrow> check_overlaps prev es = None \<Longrightarrow>
   (\<forall>e\<in>set es. prev < line_start e) \<and> sorted_wrt (\<lambda>a b. line_end a < line_start b) es"
proof (induction es arbitrary: prev)
  case Nil
  show ?case by simp
next
  case (Cons e es)
  from Cons.prems have s: "prev < line_start e" and c: "check_overlaps (line_end e) es = None"
    by (auto split: if_splits)
  from Cons.prems have le: "\<forall>x\<in>set es. line_start e \<le> line_start x" and so: "sorted (map line_start es)"
    by auto
  from Cons.IH [OF so c] s le show ?case by fastforce
qed

lemma check_overlaps_Some:
  "check_overlaps prev es = Some err \<Longrightarrow> \<exists>n. err = OverlappingRanges n \<and> n \<in> line_start ` set es"
  by (induction es arbitrary: prev) (auto split: if_splits)

lemma check_overlaps_before:
  "sorted (map line_start es) \<Longrightarrow> check_overlaps prev es = Some (OverlappingRanges n) \<Longrightarrow>
   (\<forall>e\<in>set es. line_start e < n \<longrightarrow> prev < line_start e)
   \<and> sorted_wrt (\<lambda>a b. line_start a < n \<and> line_start b < n \<longrightarrow> line_end a < line_start b) es"
proof (induction es arbitrary: prev)
  case Nil
  then show ?case by simp
next
  case (Cons e es)
  from Cons.prems have le: "\<forall>x\<in>set es. line_start e \<le> line_start x" and so: "sorted (map line_start es)"
    by auto
  show ?case
  proof (cases "line_start e \<le> prev")
    case True
    with Cons.prems have "n = line_start e" by simp
    with le have "\<forall>x\<in>set (e # es). \<not> line_start x < n" by auto
    then show ?thesis
      by (auto simp: sorted_wrt_iff_nth_less)
  next
    case False
    with Cons.prems have c: "check_overlaps (line_end e) es = Some (OverlappingRanges n)" by simp
    from Cons.IH [OF so c] False le show ?thesis by fastforce
  qed
qed

lemma check_overlaps_Some_pair:
  "check_overlaps prev es = Some (OverlappingRanges n) \<Longrightarrow>
   (\<exists>e rest. es = e # rest \<and> n = line_start e \<and> n \<le> prev)
   \<or> (\<exists>k. Suc k < length es \<and> n = line_start (es ! Suc k) \<and> n \<le> line_end (es ! k))"
proof (induction es arbitrary: prev)
  case Nil
  then show ?case by simp
next
  case (Cons e es)
  show ?case
  proof (cases "line_start e \<le> prev")
    case True
    with Cons.prems show ?thesis by simp
  next
    case False
    with Cons.prems have c: "check_overlaps (line_end e) es = Some (OverlappingRanges n)" by simp
    from Cons.IH [OF c] show ?thesis
    proof
      assume "\<exists>x rest. es = x # rest \<and> n = line_start x \<and> n \<le> line_end e"
      then have "Suc 0 < length (e # es) \<and> n = line_start ((e # es) ! Suc 0)
                 \<and> n \<le> line_end ((e # es) ! 0)"
        by auto
      then show ?thesis by blast
    next
      assume "\<exists>k. Suc k < length es \<and> n = line_start (es ! Suc k) \<and> n \<le> line_end (es ! k)"
      then obtain k where "Suc k < length es" "n = line_start (es ! Suc k)" "n \<le> line_end (es ! k)"
        by blast
      then have "Suc (Suc k) < length (e # es) \<and> n = line_start ((e # es) ! Suc (Suc k))
                 \<and> n \<le> line_end ((e # es) ! Suc k)"
        by simp
      then show ?thesis by blast
    qed
  qed
qed

lemma sorted_wrt_conj:
  "sorted_wrt (\<lambda>a b. P a b \<and> Q a b) xs \<longleftrightarrow> sorted_wrt P xs \<and> sorted_wrt Q xs"
  by (induction xs) auto

lemma not_sorted_wrt_sym_nth:
  assumes "\<And>a b. S a b \<Longrightarrow> S b a" and "\<not> sorted_wrt S xs"
  shows "\<exists>p q. p < length xs \<and> q < length xs \<and> p \<noteq> q \<and> \<not> S (xs ! p) (xs ! q)"
proof -
  from assms(2) obtain i j where "i < j" "j < length xs" "\<not> S (xs ! i) (xs ! j)"
    by (auto simp: sorted_wrt_iff_nth_less)
  then have "i < length xs \<and> j < length xs \<and> i \<noteq> j \<and> \<not> S (xs ! i) (xs ! j)" by simp
  then show ?thesis by blast
qed

section \<open>Taking one edit out of a batch\<close>

lemma insort_key_append:
  "insort_key k x (A @ B) =
     (if \<exists>a\<in>set A. k x \<le> k a then insort_key k x A @ B else A @ insort_key k x B)"
  by (induction A) auto

lemma insort_key_split: "\<exists>A B. insort_key k f zs = A @ f # B \<and> zs = A @ B"
proof (induction zs)
  case Nil
  show ?case by simp
next
  case (Cons z zs)
  show ?case
  proof (cases "k f \<le> k z")
    case True
    then have "insort_key k f (z # zs) = [] @ f # (z # zs) \<and> z # zs = [] @ (z # zs)" by simp
    then show ?thesis by blast
  next
    case False
    from Cons.IH obtain A B where "insort_key k f zs = A @ f # B" "zs = A @ B" by blast
    with False have "insort_key k f (z # zs) = (z # A) @ f # B \<and> z # zs = (z # A) @ B" by simp
    then show ?thesis by blast
  qed
qed

lemma sort_key_remove_middle:
  "\<exists>A B. sort_key k (xs @ f # ys) = A @ f # B \<and> sort_key k (xs @ ys) = A @ B"
proof (induction xs)
  case Nil
  show ?case using insort_key_split [of k f "sort_key k ys"] by simp
next
  case (Cons x xs)
  from Cons.IH obtain A B where
    ab: "sort_key k (xs @ f # ys) = A @ f # B" "sort_key k (xs @ ys) = A @ B" by blast
  have "sorted (map k (A @ f # B))"
    using sorted_sort_key [of k "xs @ f # ys"] ab by simp
  then have fb: "\<forall>b\<in>set B. k f \<le> k b" and af: "\<forall>a\<in>set A. k a \<le> k f"
    by (auto simp: sorted_append)
  consider (inA) "\<exists>a\<in>set A. k x \<le> k a"
    | (atf) "\<not> (\<exists>a\<in>set A. k x \<le> k a)" "k x \<le> k f"
    | (inB) "\<not> (\<exists>a\<in>set A. k x \<le> k a)" "\<not> k x \<le> k f"
    by blast
  then show ?case
  proof cases
    case inA
    then have "sort_key k ((x # xs) @ f # ys) = insort_key k x A @ f # B
         \<and> sort_key k ((x # xs) @ ys) = insort_key k x A @ B"
      using ab by (simp add: insort_key_append)
    then show ?thesis by blast
  next
    case atf
    from atf fb have "\<forall>b\<in>set B. k x \<le> k b" by auto
    then have "insort_key k x B = x # B" by (rule insort_is_Cons)
    with atf have "sort_key k ((x # xs) @ f # ys) = (A @ [x]) @ f # B
         \<and> sort_key k ((x # xs) @ ys) = (A @ [x]) @ B"
      using ab by (simp add: insort_key_append)
    then show ?thesis by blast
  next
    case inB
    then have "sort_key k ((x # xs) @ f # ys) = A @ f # insort_key k x B
         \<and> sort_key k ((x # xs) @ ys) = A @ insort_key k x B"
      using ab by (simp add: insort_key_append)
    then show ?thesis by blast
  qed
qed

lemma check_overlaps_NoneI:
  "(\<forall>e\<in>set es. prev < line_start e) \<Longrightarrow> sorted_wrt (\<lambda>a b. line_end a < line_start b) es
   \<Longrightarrow> check_overlaps prev es = None"
  by (induction es arbitrary: prev) auto

lemma check_overlaps_remove:
  assumes "sorted (map line_start (A @ f # B))" and "check_overlaps prev (A @ f # B) = None"
  shows "check_overlaps prev (A @ B) = None"
proof -
  from check_overlaps_None [OF assms]
  have "(\<forall>e\<in>set (A @ B). prev < line_start e)
        \<and> sorted_wrt (\<lambda>a b. line_end a < line_start b) (A @ B)"
    by (auto simp: sorted_wrt_append)
  then show ?thesis by (simp add: check_overlaps_NoneI)
qed

lemma process_edits_append:
  "process_edits orig i st (A @ B) =
     (let (st1, r1) = process_edits orig i st A;
          (st2, r2) = process_edits orig (i + length A) st1 B
      in (st2, r1 @ r2))"
  by (induction A arbitrary: i st) (auto split: sum.splits prod.splits)

lemma process_edits_length: "length (snd (process_edits orig i st es)) = length es"
  by (induction es arbitrary: i st) (auto simp: split_beta split: sum.splits)

lemma process_edits_reindex:
  "fst (process_edits orig j st es) = fst (process_edits orig i st es)
   \<and> map (\<lambda>r. (success r, error r, res_line_start r, res_line_end r, shift r))
         (snd (process_edits orig j st es))
     = map (\<lambda>r. (success r, error r, res_line_start r, res_line_end r, shift r))
         (snd (process_edits orig i st es))"
proof (induction es arbitrary: i j st)
  case Nil
  show ?case by simp
next
  case (Cons e es)
  show ?case
  proof (cases "apply_edit orig st e")
    case (Inl err)
    with Cons.IH [of "Suc j" st "Suc i"] show ?thesis
      by (simp add: split_beta)
  next
    case (Inr p)
    with Cons.IH [of "Suc j" "fst p" "Suc i"] show ?thesis
      by (cases p) (simp add: split_beta)
  qed
qed

lemma process_edits_failed_head:
  assumes "\<not> success (hd (snd (process_edits orig i st (f # B))))"
  shows "\<exists>rf. \<not> success rf
    \<and> process_edits orig i st (f # B) =
        (fst (process_edits orig (Suc i) st B), rf # snd (process_edits orig (Suc i) st B))"
proof (cases "apply_edit orig st f")
  case (Inl err)
  then have "\<not> success \<lparr>index = i, success = False, error = Some err,
                res_line_start = line_start f, res_line_end = line_end f, shift = None\<rparr>
    \<and> process_edits orig i st (f # B) =
        (fst (process_edits orig (Suc i) st B),
         \<lparr>index = i, success = False, error = Some err,
           res_line_start = line_start f, res_line_end = line_end f, shift = None\<rparr>
         # snd (process_edits orig (Suc i) st B))"
    by (simp add: split_beta)
  then show ?thesis by blast
next
  case (Inr p)
  then have "success (hd (snd (process_edits orig i st (f # B))))"
    by (cases p) (simp add: split_beta)
  with assms show ?thesis by simp
qed

section \<open>What a batch of applied edits builds\<close>

lemma translate_all:
  "\<forall>s\<in>set shifts. shift_start s \<le> line_start e \<Longrightarrow>
   translate shifts e = sum_list (map shift_amount shifts)"
  by (simp add: translate_def)

lemma apply_edit_Inr_checks:
  assumes "apply_edit orig st e = Inr (st1, sh)"
  shows "1 \<le> line_start e" and "line_start e \<le> line_end e"
    and "line_end e \<le> int (length orig)" and "sh = edit_shift e"
    and "orig ! nat (line_start e - 1) = line_start_contents e"
  using assms
  by (auto simp: apply_edit_def Let_def edit_shift_def split: if_splits)

lemma apply_edit_applies:
  assumes w: "workingLines st = P @ drop prev orig"
    and lenP: "int (length P) = int prev + sum_list (map shift_amount (lineShifts st))"
    and led: "\<forall>s\<in>set (lineShifts st). shift_start s \<le> int prev"
    and prev: "prev \<le> length orig" "int prev < line_start e"
    and ap: "apply_edit orig st e = Inr (st1, sh)"
  shows "workingLines st1 =
           (P @ take (nat (line_start e - 1) - prev) (drop prev orig) @ split_lines (contents e))
           @ drop (nat (line_end e)) orig"
    and "lineShifts st1 = lineShifts st
           @ [\<lparr>shift_start = line_start e, shift_end = line_end e, shift_amount = edit_shift e\<rparr>]"
proof -
  let ?D = "sum_list (map shift_amount (lineShifts st))"
  note chk = apply_edit_Inr_checks [OF ap]
  have tr: "translate (lineShifts st) e = ?D"
    using led prev by (intro translate_all) force
  let ?cs = "line_start e - 1 + ?D"
  let ?ce = "line_end e - 1 + ?D"
  have lenW: "int (length (workingLines st)) = int (length orig) + ?D"
    using w lenP prev by simp
  have cs: "?cs < int (length (workingLines st))" "int (length P) \<le> ?cs"
    and ce: "?ce < int (length (workingLines st))" "int (length P) \<le> ?ce + 1"
    using lenW lenP chk prev by linarith+
  have st1: "st1 = \<lparr>workingLines = slice (workingLines st) 0 ?cs @ split_lines (contents e)
                        @ slice_from (workingLines st) (?ce + 1),
                    lineShifts = lineShifts st
           @ [\<lparr>shift_start = line_start e, shift_end = line_end e, shift_amount = edit_shift e\<rparr>]\<rparr>"
    using ap chk cs ce tr
    by (simp add: apply_edit_def Let_def edit_shift_def split: if_splits)
  have s1: "slice (workingLines st) 0 ?cs = P @ take (nat (line_start e - 1) - prev) (drop prev orig)"
  proof -
    have "relative_index ?cs (length (workingLines st)) = nat ?cs"
      using cs by (simp add: relative_index_def)
    moreover have "nat ?cs - length P = nat (line_start e - 1) - prev"
      using lenP cs by linarith
    moreover have "length P \<le> nat ?cs" using cs by linarith
    ultimately show ?thesis
      using w by (simp add: slice_def relative_index_def)
  qed
  have s2: "slice_from (workingLines st) (?ce + 1) = drop (nat (line_end e)) orig"
  proof -
    have r: "relative_index (?ce + 1) (length (workingLines st)) = nat (?ce + 1)"
      using ce cs by (simp add: relative_index_def)
    have a: "nat (?ce + 1) - length P + prev = nat (line_end e)"
      using lenP ce chk prev by linarith
    have b: "length P \<le> nat (?ce + 1)" using ce by linarith
    show ?thesis
      using w r a b by (simp add: slice_from_def)
  qed
  from st1 s1 s2 show "workingLines st1 =
           (P @ take (nat (line_start e - 1) - prev) (drop prev orig) @ split_lines (contents e))
           @ drop (nat (line_end e)) orig"
    by simp
  from st1 show "lineShifts st1 = lineShifts st
           @ [\<lparr>shift_start = line_start e, shift_end = line_end e, shift_amount = edit_shift e\<rparr>]"
    by simp
qed


lemma process_edits_rebuild:
  assumes "process_edits orig i st es = (st', rs)"
    and "\<forall>r\<in>set rs. success r"
    and "sorted_wrt (\<lambda>a b. line_end a < line_start b) es"
    and "\<forall>e\<in>set es. int prev < line_start e"
    and "workingLines st = P @ drop prev orig"
    and "int (length P) = int prev + sum_list (map shift_amount (lineShifts st))"
    and "\<forall>s\<in>set (lineShifts st). shift_start s \<le> int prev"
    and "prev \<le> length orig"
  shows "workingLines st' = P @ rebuild orig prev es
       \<and> map shift rs = map (\<lambda>e. Some (edit_shift e)) es
       \<and> (\<forall>e\<in>set es. 1 \<le> line_start e \<and> line_start e \<le> line_end e
                       \<and> line_end e \<le> int (length orig))"
  using assms
proof (induction es arbitrary: i st rs prev P)
  case Nil
  then show ?case by simp
next
  case (Cons e es)
  obtain st1 sh where ap: "apply_edit orig st e = Inr (st1, sh)"
    using Cons.prems(1,2) by (cases "apply_edit orig st e") (auto simp: split_beta)
  let ?rs1 = "snd (process_edits orig (Suc i) st1 es)"
  have run1: "process_edits orig (Suc i) st1 es = (st', ?rs1)"
    and rs: "rs = \<lparr>index = i, success = True, error = None,
                    res_line_start = line_start e, res_line_end = line_end e,
                    shift = Some sh\<rparr> # ?rs1"
    using Cons.prems(1) ap by (auto simp: split_beta)
  note chk = apply_edit_Inr_checks [OF ap]
  have pe: "int prev < line_start e" using Cons.prems(4) by simp
  note step = apply_edit_applies [OF Cons.prems(5) Cons.prems(6) Cons.prems(7) Cons.prems(8) pe ap]
  let ?P1 = "P @ take (nat (line_start e - 1) - prev) (drop prev orig) @ split_lines (contents e)"
  let ?prev1 = "nat (line_end e)"
  have a2: "\<forall>r\<in>set ?rs1. success r" using Cons.prems(2) rs by simp
  have a3: "sorted_wrt (\<lambda>a b. line_end a < line_start b) es" using Cons.prems(3) by simp
  have a4: "\<forall>x\<in>set es. int ?prev1 < line_start x" using Cons.prems(3) chk by auto
  have a5: "workingLines st1 = ?P1 @ drop ?prev1 orig" using step(1) .
  have a6: "int (length ?P1) = int ?prev1 + sum_list (map shift_amount (lineShifts st1))"
    using step(2) Cons.prems(6,8) chk pe by (simp add: edit_shift_def)
  have a7: "\<forall>s\<in>set (lineShifts st1). shift_start s \<le> int ?prev1"
    using step(2) Cons.prems(7) chk pe by auto
  have a8: "?prev1 \<le> length orig" using chk by linarith
  from Cons.IH [OF run1 a2 a3 a4 a5 a6 a7 a8] rs chk show ?case by simp
qed

lemma length_rebuild:
  assumes "sorted_wrt (\<lambda>a b. line_end a < line_start b) es"
    and "\<forall>e\<in>set es. int prev < line_start e \<and> line_start e \<le> line_end e
                       \<and> line_end e \<le> int (length orig)"
    and "prev \<le> length orig"
  shows "int (length (rebuild orig prev es))
       = int (length orig) - int prev + sum_list (map edit_shift es)"
  using assms
proof (induction es arbitrary: prev)
  case Nil
  then show ?case by simp
next
  case (Cons e es)
  have "int (length (rebuild orig (nat (line_end e)) es))
       = int (length orig) - int (nat (line_end e)) + sum_list (map edit_shift es)"
    using Cons.prems by (intro Cons.IH) auto
  moreover have "int (length (take (nat (line_start e - 1) - prev) (drop prev orig)))
      = line_start e - 1 - int prev"
  proof -
    have "nat (line_start e - 1) - prev \<le> length orig - prev"
      using Cons.prems by simp linarith
    then have "length (take (nat (line_start e - 1) - prev) (drop prev orig))
        = nat (line_start e - 1) - prev"
      by simp
    moreover have "int (nat (line_start e - 1) - prev) = line_start e - 1 - int prev"
      using Cons.prems by simp linarith
    ultimately show ?thesis by simp
  qed
  moreover have "int (nat (line_end e)) = line_end e"
    using Cons.prems by simp
  ultimately show ?case
    by (simp add: edit_shift_def [of e])
qed

lemma rebuild_keeps_line:
  assumes "sorted_wrt (\<lambda>a b. line_end a < line_start b) es"
    and "\<forall>e\<in>set es. int prev < line_start e \<and> line_start e \<le> line_end e
                       \<and> line_end e \<le> int (length orig)"
    and "int prev < p" and "p \<le> int (length orig)"
    and "\<forall>e\<in>set es. \<not> (line_start e \<le> p \<and> p \<le> line_end e)"
  shows "0 \<le> p - 1 - int prev + sum_list (map edit_shift (filter (\<lambda>e. line_end e < p) es))
       \<and> nat (p - 1 - int prev + sum_list (map edit_shift (filter (\<lambda>e. line_end e < p) es)))
           < length (rebuild orig prev es)
       \<and> rebuild orig prev es
           ! nat (p - 1 - int prev + sum_list (map edit_shift (filter (\<lambda>e. line_end e < p) es)))
         = orig ! nat (p - 1)"
  using assms
proof (induction es arbitrary: prev)
  case Nil
  then have "nat (p - 1 - int prev) < length orig - prev"
    and "prev + nat (p - 1 - int prev) = nat (p - 1)"
    by linarith+
  with Nil show ?case by simp
next
  case (Cons e es)
  let ?seg = "take (nat (line_start e - 1) - prev) (drop prev orig)"
  let ?new = "split_lines (contents e)"
  have e: "int prev < line_start e" "line_start e \<le> line_end e" "line_end e \<le> int (length orig)"
    using Cons.prems(2) by auto
  have lseg: "length ?seg = nat (line_start e - 1) - prev" using e by simp
  have pl: "prev \<le> length orig" using Cons.prems(3,4) by linarith
  show ?case
  proof (cases "p < line_start e")
    case True
    have later: "\<forall>x\<in>set es. \<not> line_end x < p"
      using Cons.prems(1,2) True e by fastforce
    then have f: "filter (\<lambda>e. line_end e < p) (e # es) = []"
      using True e by (auto simp: filter_empty_conv)
    have i: "nat (p - 1 - int prev) < length ?seg"
      using lseg True Cons.prems(3) by linarith
    have "rebuild orig prev (e # es) ! nat (p - 1 - int prev) = ?seg ! nat (p - 1 - int prev)"
      using i by (simp add: nth_append)
    also have "\<dots> = orig ! (prev + nat (p - 1 - int prev))"
      using i pl by simp
    also have "prev + nat (p - 1 - int prev) = nat (p - 1)"
      using Cons.prems(3) by linarith
    finally have "rebuild orig prev (e # es) ! nat (p - 1 - int prev) = orig ! nat (p - 1)" .
    moreover have "length ?seg \<le> length (rebuild orig prev (e # es))"
      by (simp del: length_take)
    then have "nat (p - 1 - int prev) < length (rebuild orig prev (e # es))"
      using i by linarith
    ultimately show ?thesis using f Cons.prems(3) by simp
  next
    case False
    with Cons.prems(5) have after: "line_end e < p" by auto
    let ?prev1 = "nat (line_end e)"
    let ?S = "sum_list (map edit_shift (filter (\<lambda>e. line_end e < p) es))"
    have ih: "0 \<le> p - 1 - int ?prev1 + ?S
       \<and> nat (p - 1 - int ?prev1 + ?S) < length (rebuild orig ?prev1 es)
       \<and> rebuild orig ?prev1 es ! nat (p - 1 - int ?prev1 + ?S) = orig ! nat (p - 1)"
      using Cons.prems after e by (intro Cons.IH) auto
    have f: "sum_list (map edit_shift (filter (\<lambda>e. line_end e < p) (e # es)))
           = edit_shift e + ?S"
      using after by simp
    define front where "front = ?seg @ ?new"
    define k where "k = nat (p - 1 - int ?prev1 + ?S)"
    have pre: "int (length front) = line_end e - int prev + edit_shift e"
      using lseg e by (simp add: edit_shift_def front_def)
    let ?idx = "p - 1 - int prev + (edit_shift e + ?S)"
    have split: "?idx = int (length front) + (p - 1 - int ?prev1 + ?S)"
      using pre e by simp
    have nn: "0 \<le> ?idx" using split ih by linarith
    have ni: "nat ?idx = length front + k"
      unfolding k_def using split ih by linarith
    have kl: "k < length (rebuild orig ?prev1 es)"
      and kv: "rebuild orig ?prev1 es ! k = orig ! nat (p - 1)"
      unfolding k_def using ih by simp_all
    have rb: "rebuild orig prev (e # es) = front @ rebuild orig ?prev1 es"
      by (simp add: front_def)
    have "rebuild orig prev (e # es) ! nat ?idx = rebuild orig ?prev1 es ! k"
      unfolding rb ni by (rule nth_append_length_plus)
    moreover have "nat ?idx < length (rebuild orig prev (e # es))"
      unfolding rb ni using kl by simp
    ultimately have "0 \<le> ?idx \<and> nat ?idx < length (rebuild orig prev (e # es))
        \<and> rebuild orig prev (e # es) ! nat ?idx = orig ! nat (p - 1)"
      using nn kv by simp
    then show ?thesis unfolding f .
  qed
qed


lemma split_lines_no_newline: "\<forall>l\<in>set (split_lines s). CHR 0x0A \<notin> set l"
  by (induction s) (auto split: list.splits)

lemma split_lines_plain: "CHR 0x0A \<notin> set l \<Longrightarrow> split_lines l = [l]"
  by (induction l) auto

lemma split_lines_append:
  "CHR 0x0A \<notin> set l \<Longrightarrow> split_lines (l @ CHR 0x0A # r) = l # split_lines r"
  by (induction l) auto

lemma split_join_lines:
  "ls \<noteq> [] \<Longrightarrow> \<forall>l\<in>set ls. CHR 0x0A \<notin> set l \<Longrightarrow> split_lines (join_lines ls) = ls"
proof (induction ls rule: join_lines.induct)
  case 1
  then show ?case by simp
next
  case (2 l)
  then show ?case by (simp add: split_lines_plain)
next
  case (3 l m ls)
  then show ?case by (simp add: split_lines_append)
qed

lemma set_rebuild:
  "set (rebuild orig prev es) \<subseteq> set orig \<union> (\<Union>e\<in>set es. set (split_lines (contents e)))"
proof (induction es arbitrary: prev)
  case Nil
  show ?case using set_drop_subset [of prev orig] by simp
next
  case (Cons e es)
  have "set (take (nat (line_start e - 1) - prev) (drop prev orig)) \<subseteq> set orig"
    using set_take_subset [of _ "drop prev orig"] set_drop_subset [of prev orig] by blast
  with Cons.IH [of "nat (line_end e)"] show ?case by auto
qed

lemma rebuild_not_Nil: "orig \<noteq> [] \<Longrightarrow> rebuild orig 0 es \<noteq> []"
  by (cases es) (simp_all add: split_lines_not_Nil)

lemma process_edits_success_checks:
  "process_edits orig i st es = (st', rs) \<Longrightarrow> \<forall>r\<in>set rs. success r \<Longrightarrow>
   \<forall>e\<in>set es. 1 \<le> line_start e"
proof (induction es arbitrary: i st rs)
  case Nil
  show ?case by simp
next
  case (Cons e es)
  obtain st1 sh where ap: "apply_edit orig st e = Inr (st1, sh)"
    using Cons.prems by (cases "apply_edit orig st e") (auto simp: split_beta)
  have "process_edits orig (Suc i) st1 es = (st', snd (process_edits orig (Suc i) st1 es))"
    and "\<forall>r\<in>set (snd (process_edits orig (Suc i) st1 es)). success r"
    using Cons.prems ap by (auto simp: split_beta)
  from Cons.IH [OF this] apply_edit_Inr_checks(1) [OF ap] show ?case by simp
qed

lemma sum_list_sort_key:
  "sum_list (map f (sort_key k xs)) = sum_list (map (f :: 'a \<Rightarrow> int) xs)"
proof -
  have "sum_list (map f (sort_key k xs)) = sum_mset (mset (map f (sort_key k xs)))"
    by (simp only: sum_mset_sum_list)
  also have "\<dots> = sum_mset (mset (map f xs))" by simp
  also have "\<dots> = sum_list (map f xs)" by (simp only: sum_mset_sum_list)
  finally show ?thesis .
qed

section \<open>The states the loop passes through\<close>








section \<open>Edits that fail leave the state alone\<close>

lemma process_edits_no_success:
  "process_edits orig i st es = (st', rs) \<Longrightarrow> \<forall>r\<in>set rs. \<not> success r \<Longrightarrow> st' = st"
  by (induction es arbitrary: i st st' rs) (auto split: sum.splits prod.splits)

text \<open>
  C7. A batch that passes the overlap check and in which no edit succeeds (the empty
  batch included) writes the file exactly once, and what it writes is the original
  content, byte for byte.
\<close>

theorem no_success_roundtrip:
  "(multireplace_lines_in_file fs edits = (Inr rep, fs') \<and> successful rep = 0
      \<longrightarrow> content fs' = content fs \<and> writes fs' = writes fs + 1)
   \<and> multireplace_lines_in_file fs [] =
       (Inr \<lparr>successful = 0, failed = 0, outcomes = []\<rparr>,
        \<lparr>content = content fs, writes = writes fs + 1\<rparr>)"
proof (intro conjI impI)
  assume a: "multireplace_lines_in_file fs edits = (Inr rep, fs') \<and> successful rep = 0"
  obtain st rs where p: "process_edits (split_lines (content fs)) 0
      \<lparr>workingLines = split_lines (content fs), lineShifts = []\<rparr> (sort_edits edits) = (st, rs)"
    by (cases "process_edits (split_lines (content fs)) 0
      \<lparr>workingLines = split_lines (content fs), lineShifts = []\<rparr> (sort_edits edits)") auto
  from a p have rep: "rep = \<lparr>successful = length (filter success rs),
                       failed = length (filter (\<lambda>r. \<not> success r) rs), outcomes = rs\<rparr>"
    and fs': "fs' = \<lparr>content = join_lines (workingLines st), writes = writes fs + 1\<rparr>"
    by (auto simp: multireplace_lines_in_file_def Let_def split: option.splits)
  from a rep have "\<forall>r\<in>set rs. \<not> success r" by (simp add: filter_empty_conv)
  with p have "st = \<lparr>workingLines = split_lines (content fs), lineShifts = []\<rparr>"
    by (rule process_edits_no_success)
  with fs' show "content fs' = content fs" by (simp add: join_split_lines)
  from fs' show "writes fs' = writes fs + 1" by simp
next
  show "multireplace_lines_in_file fs [] =
       (Inr \<lparr>successful = 0, failed = 0, outcomes = []\<rparr>,
        \<lparr>content = content fs, writes = writes fs + 1\<rparr>)"
    by (simp add: multireplace_lines_in_file_def sort_edits_def join_split_lines)
qed

theorem no_success_roundtrip_witness:
  "multireplace_lines_in_file \<lparr>content = ''a\<newline>b'', writes = 0\<rparr>
     [\<lparr>line_start = 3, line_end = 3, line_start_contents = ''c'', contents = ''x''\<rparr>,
      \<lparr>line_start = 1, line_end = 1, line_start_contents = ''b'', contents = ''y''\<rparr>]
   = (Inr \<lparr>successful = 0, failed = 2,
          outcomes =
            [\<lparr>index = 0, success = False, error = Some (ContentMismatch 1 ''b'' ''a''),
              res_line_start = 1, res_line_end = 1, shift = None\<rparr>,
             \<lparr>index = 1, success = False, error = Some (LineNotInOriginal 3 2),
              res_line_start = 3, res_line_end = 3, shift = None\<rparr>]\<rparr>,
      \<lparr>content = ''a\<newline>b'', writes = 1\<rparr>)
   \<and> content \<lparr>content = ''a\<newline>b'', writes = 1\<rparr> = ''a\<newline>b''
   \<and> writes \<lparr>content = ''a\<newline>b'', writes = 1::nat\<rparr> = 0 + 1"
proof -
  have run: "multireplace_lines_in_file \<lparr>content = ''a\<newline>b'', writes = 0\<rparr>
     [\<lparr>line_start = 3, line_end = 3, line_start_contents = ''c'', contents = ''x''\<rparr>,
      \<lparr>line_start = 1, line_end = 1, line_start_contents = ''b'', contents = ''y''\<rparr>]
   = (Inr \<lparr>successful = 0, failed = 2,
          outcomes =
            [\<lparr>index = 0, success = False, error = Some (ContentMismatch 1 ''b'' ''a''),
              res_line_start = 1, res_line_end = 1, shift = None\<rparr>,
             \<lparr>index = 1, success = False, error = Some (LineNotInOriginal 3 2),
              res_line_start = 3, res_line_end = 3, shift = None\<rparr>]\<rparr>,
      \<lparr>content = ''a\<newline>b'', writes = 1\<rparr>)"
    by code_simp
  from run no_success_roundtrip [of "\<lparr>content = ''a\<newline>b'', writes = 0\<rparr>"
     "[\<lparr>line_start = 3, line_end = 3, line_start_contents = ''c'', contents = ''x''\<rparr>,
      \<lparr>line_start = 1, line_end = 1, line_start_contents = ''b'', contents = ''y''\<rparr>]"
     "\<lparr>successful = 0, failed = 2,
          outcomes =
            [\<lparr>index = 0, success = False, error = Some (ContentMismatch 1 ''b'' ''a''),
              res_line_start = 1, res_line_end = 1, shift = None\<rparr>,
             \<lparr>index = 1, success = False, error = Some (LineNotInOriginal 3 2),
              res_line_start = 3, res_line_end = 3, shift = None\<rparr>]\<rparr>"
     "\<lparr>content = ''a\<newline>b'', writes = 1\<rparr>"]
  show ?thesis by simp
qed

section \<open>The order of the outcomes\<close>

text \<open>
  C1, as the code has it. \<open>edits.sort\<close> sorts the submitted array in place and the loop
  numbers the outcomes as it goes, so a batch that passes the overlap check returns
  one outcome per submitted edit, the outcome at index \<open>i\<close> carrying \<open>index = i\<close> and the
  range of the \<open>i\<close>-th edit in ascending \<open>(line_start, line_end)\<close> order; the ranges of the
  outcomes are, as a multiset, those of the submitted edits. The order is the caller's
  when the batch was submitted in ascending order.
\<close>

theorem outcomes_in_processing_order:
  assumes "multireplace_lines_in_file fs edits = (Inr rep, fs')"
  shows "length (outcomes rep) = length edits
    \<and> (\<forall>i<length edits.
          index (outcomes rep ! i) = i
        \<and> res_line_start (outcomes rep ! i) = line_start (sort_edits edits ! i)
        \<and> res_line_end (outcomes rep ! i) = line_end (sort_edits edits ! i))
    \<and> mset (map (\<lambda>r. (res_line_start r, res_line_end r)) (outcomes rep))
        = mset (map edit_key edits)
    \<and> (sorted (map edit_key edits) \<longrightarrow> sort_edits edits = edits)"
proof -
  from assms obtain st where
    p: "process_edits (split_lines (content fs)) 0
           \<lparr>workingLines = split_lines (content fs), lineShifts = []\<rparr> (sort_edits edits)
         = (st, outcomes rep)"
    by (rule multireplace_Inr)
  have m: "map (\<lambda>r. (index r, res_line_start r, res_line_end r)) (outcomes rep)
     = map (\<lambda>(j, e). (j, line_start e, line_end e)) (enumerate 0 (sort_edits edits))"
    using p by (rule process_edits_results)
  have len: "length (outcomes rep) = length edits"
    using arg_cong [OF m, of length] by (simp add: sort_edits_def)
  have nth: "index (outcomes rep ! i) = i
        \<and> res_line_start (outcomes rep ! i) = line_start (sort_edits edits ! i)
        \<and> res_line_end (outcomes rep ! i) = line_end (sort_edits edits ! i)"
    if "i < length edits" for i
  proof -
    have "map (\<lambda>r. (index r, res_line_start r, res_line_end r)) (outcomes rep) ! i
       = map (\<lambda>(j, e). (j, line_start e, line_end e)) (enumerate 0 (sort_edits edits)) ! i"
      by (simp only: m)
    with that len show ?thesis
      by (simp add: nth_enumerate_eq sort_edits_def)
  qed
  have "map (\<lambda>r. (res_line_start r, res_line_end r)) (outcomes rep)
      = map edit_key (sort_edits edits)"
  proof (rule nth_equalityI)
    show "length (map (\<lambda>r. (res_line_start r, res_line_end r)) (outcomes rep))
        = length (map edit_key (sort_edits edits))"
      using len by (simp add: sort_edits_def)
  next
    fix i
    assume "i < length (map (\<lambda>r. (res_line_start r, res_line_end r)) (outcomes rep))"
    then have i: "i < length edits" using len by simp
    with nth [OF i] len
    show "map (\<lambda>r. (res_line_start r, res_line_end r)) (outcomes rep) ! i
        = map edit_key (sort_edits edits) ! i"
      by (simp add: edit_key_def sort_edits_def)
  qed
  then have ms: "mset (map (\<lambda>r. (res_line_start r, res_line_end r)) (outcomes rep))
        = mset (map edit_key edits)"
    by (simp add: sort_edits_def)
  have "sorted (map edit_key edits) \<longrightarrow> sort_edits edits = edits"
    by (simp add: sort_edits_def sort_key_id_if_sorted)
  with len nth ms show ?thesis by blast
qed

text \<open>
  The batch of the counterexample below: the file \<open>a, b, c\<close>, an edit of line 3
  submitted first and an edit of line 1 submitted second.
\<close>

theorem outcomes_in_processing_order_witness:
  "multireplace_lines_in_file \<lparr>content = ''a\<newline>b\<newline>c'', writes = 0\<rparr>
     [\<lparr>line_start = 3, line_end = 3, line_start_contents = ''c'', contents = ''X\<newline>Y''\<rparr>,
      \<lparr>line_start = 1, line_end = 1, line_start_contents = ''a'', contents = ''Z''\<rparr>]
   = (Inr \<lparr>successful = 2, failed = 0,
          outcomes =
            [\<lparr>index = 0, success = True, error = None,
              res_line_start = 1, res_line_end = 1, shift = Some 0\<rparr>,
             \<lparr>index = 1, success = True, error = None,
              res_line_start = 3, res_line_end = 3, shift = Some 1\<rparr>]\<rparr>,
      \<lparr>content = ''Z\<newline>b\<newline>X\<newline>Y'', writes = 1\<rparr>)
   \<and> line_start (sort_edits
       [\<lparr>line_start = 3, line_end = 3, line_start_contents = ''c'', contents = ''X\<newline>Y''\<rparr>,
        \<lparr>line_start = 1, line_end = 1, line_start_contents = ''a'', contents = ''Z''\<rparr>] ! 0)
     = 1"
proof -
  have run: "multireplace_lines_in_file \<lparr>content = ''a\<newline>b\<newline>c'', writes = 0\<rparr>
     [\<lparr>line_start = 3, line_end = 3, line_start_contents = ''c'', contents = ''X\<newline>Y''\<rparr>,
      \<lparr>line_start = 1, line_end = 1, line_start_contents = ''a'', contents = ''Z''\<rparr>]
   = (Inr \<lparr>successful = 2, failed = 0,
          outcomes =
            [\<lparr>index = 0, success = True, error = None,
              res_line_start = 1, res_line_end = 1, shift = Some 0\<rparr>,
             \<lparr>index = 1, success = True, error = None,
              res_line_start = 3, res_line_end = 3, shift = Some 1\<rparr>]\<rparr>,
      \<lparr>content = ''Z\<newline>b\<newline>X\<newline>Y'', writes = 1\<rparr>)"
    by code_simp
  from outcomes_in_processing_order [OF run, THEN conjunct2, THEN conjunct1, rule_format, of 0]
  have "line_start (sort_edits
       [\<lparr>line_start = 3, line_end = 3, line_start_contents = ''c'', contents = ''X\<newline>Y''\<rparr>,
        \<lparr>line_start = 1, line_end = 1, line_start_contents = ''a'', contents = ''Z''\<rparr>] ! 0)
     = 1"
    by simp
  with run show ?thesis by simp
qed

text \<open>
  C1 as stated fails on that batch: the outcome at index 0 is the one of the edit
  submitted second, and the outcome at index 1 the one of the edit submitted first.
\<close>

theorem outcomes_in_submission_order_counterexample:
  "fst (multireplace_lines_in_file \<lparr>content = ''a\<newline>b\<newline>c'', writes = 0\<rparr>
     [\<lparr>line_start = 3, line_end = 3, line_start_contents = ''c'', contents = ''X\<newline>Y''\<rparr>,
      \<lparr>line_start = 1, line_end = 1, line_start_contents = ''a'', contents = ''Z''\<rparr>])
   = Inr \<lparr>successful = 2, failed = 0,
          outcomes =
            [\<lparr>index = 0, success = True, error = None,
              res_line_start = 1, res_line_end = 1, shift = Some 0\<rparr>,
             \<lparr>index = 1, success = True, error = None,
              res_line_start = 3, res_line_end = 3, shift = Some 1\<rparr>]\<rparr>
   \<and> res_line_start
        \<lparr>index = 0, success = True, error = None,
         res_line_start = 1, res_line_end = 1, shift = Some 0\<rparr>
     \<noteq> line_start
        ([\<lparr>line_start = 3, line_end = 3, line_start_contents = ''c'', contents = ''X\<newline>Y''\<rparr>,
          \<lparr>line_start = 1, line_end = 1, line_start_contents = ''a'', contents = ''Z''\<rparr>] ! 0)"
  by code_simp

section \<open>The content check of a batch edit\<close>

text \<open>
  C2. The check of a batch edit compares the original line with the expected text
  character for character; only the message normalises them. On the one-line file
  \<open>a  b\<close> (two spaces) the edit expecting \<open>a b\<close> has the same normal form as the line and
  is refused all the same, with a message showing the two equal normal forms.
\<close>

theorem content_check_compares_raw_text:
  "normalizeContent ''a  b'' = normalizeContent ''a b''
   \<and> multireplace_lines_in_file \<lparr>content = ''a  b'', writes = 0\<rparr>
       [\<lparr>line_start = 1, line_end = 1, line_start_contents = ''a b'', contents = ''x''\<rparr>]
     = (Inr \<lparr>successful = 0, failed = 1,
             outcomes =
               [\<lparr>index = 0, success = False,
                 error = Some (ContentMismatch 1 ''a b'' ''a b''),
                 res_line_start = 1, res_line_end = 1, shift = None\<rparr>]\<rparr>,
        \<lparr>content = ''a  b'', writes = 1\<rparr>)"
  by code_simp

section \<open>Translated bounds\<close>




section \<open>insert_into_file: line 0 appends without verification\<close>

text \<open>
  C10. With \<open>line_number = 0\<close> the call never looks at \<open>line_contents\<close>: it succeeds and
  the new file is the old content, a line feed and the given contents, whatever the
  expected text and the side. With \<open>line_number \<ge> 1\<close> the line must exist and its
  normal form must equal that of \<open>line_contents\<close>: then the contents are spliced in
  before or after it, and otherwise the call fails and the file is as it was.
\<close>

theorem insert_at_zero_skips_verification:
  "insert_into_file fs 0 line_contents wher new_contents =
     (Inr EndOfFile, \<lparr>content = content fs @ CHR 0x0A # new_contents, writes = writes fs + 1\<rparr>)
   \<and> (1 \<le> n \<and> n \<le> int (length (split_lines (content fs)))
      \<and> normalizeContent (split_lines (content fs) ! nat (n - 1)) = normalizeContent line_contents
      \<longrightarrow> insert_into_file fs n line_contents wher new_contents =
           (Inr (AtLine wher n),
            \<lparr>content = join_lines
               (take (nat (if wher = After then n else n - 1)) (split_lines (content fs))
                @ new_contents
                # drop (nat (if wher = After then n else n - 1)) (split_lines (content fs))),
              writes = writes fs + 1\<rparr>))
   \<and> (1 \<le> n \<and> n \<le> int (length (split_lines (content fs)))
      \<and> normalizeContent (split_lines (content fs) ! nat (n - 1)) \<noteq> normalizeContent line_contents
      \<longrightarrow> insert_into_file fs n line_contents wher new_contents =
           (Inl (ContentMismatch n (normalizeContent line_contents)
                   (normalizeContent (split_lines (content fs) ! nat (n - 1)))), fs))
   \<and> (int (length (split_lines (content fs))) < n
      \<longrightarrow> insert_into_file fs n line_contents wher new_contents =
           (Inl (LineNotInFile n (length (split_lines (content fs)))), fs))"
proof (intro conjI impI)
  show "insert_into_file fs 0 line_contents wher new_contents =
     (Inr EndOfFile, \<lparr>content = content fs @ CHR 0x0A # new_contents, writes = writes fs + 1\<rparr>)"
    by (simp add: insert_into_file_def join_lines_snoc split_lines_not_Nil join_split_lines)
next
  assume a: "1 \<le> n \<and> n \<le> int (length (split_lines (content fs)))
      \<and> normalizeContent (split_lines (content fs) ! nat (n - 1)) = normalizeContent line_contents"
  then have v: "verifyLineContent fs n line_contents = Inr (split_lines (content fs) ! nat (n - 1))"
    by (simp add: verifyLineContent_def Let_def normalizeContent_def)
  from a have k: "relative_index (if wher = After then n else n - 1) (length (split_lines (content fs)))
     = nat (if wher = After then n else n - 1)"
    by (auto simp: relative_index_def)
  from a v k show "insert_into_file fs n line_contents wher new_contents =
           (Inr (AtLine wher n),
            \<lparr>content = join_lines
               (take (nat (if wher = After then n else n - 1)) (split_lines (content fs))
                @ new_contents
                # drop (nat (if wher = After then n else n - 1)) (split_lines (content fs))),
              writes = writes fs + 1\<rparr>)"
    by (simp add: insert_into_file_def Let_def splice_insert_def)
next
  assume a: "1 \<le> n \<and> n \<le> int (length (split_lines (content fs)))
      \<and> normalizeContent (split_lines (content fs) ! nat (n - 1)) \<noteq> normalizeContent line_contents"
  then show "insert_into_file fs n line_contents wher new_contents =
           (Inl (ContentMismatch n (normalizeContent line_contents)
                   (normalizeContent (split_lines (content fs) ! nat (n - 1)))), fs)"
    by (simp add: insert_into_file_def verifyLineContent_def Let_def normalizeContent_def)
next
  assume a: "int (length (split_lines (content fs))) < n"
  then have "n \<noteq> 0" by auto
  with a show "insert_into_file fs n line_contents wher new_contents =
           (Inl (LineNotInFile n (length (split_lines (content fs)))), fs)"
    by (simp add: insert_into_file_def verifyLineContent_def Let_def)
qed

theorem insert_at_zero_skips_verification_witness:
  "insert_into_file \<lparr>content = ''a  b\<newline>c'', writes = 0\<rparr> 0 ''zzz'' Before ''new'' =
     (Inr EndOfFile, \<lparr>content = ''a  b\<newline>c\<newline>new'', writes = 1\<rparr>)
   \<and> insert_into_file \<lparr>content = ''a  b\<newline>c'', writes = 0\<rparr> 1 '' a b '' After ''new'' =
     (Inr (AtLine After 1), \<lparr>content = ''a  b\<newline>new\<newline>c'', writes = 1\<rparr>)
   \<and> insert_into_file \<lparr>content = ''a  b\<newline>c'', writes = 0\<rparr> 1 ''zzz'' After ''new'' =
     (Inl (ContentMismatch 1 ''zzz'' ''a b''), \<lparr>content = ''a  b\<newline>c'', writes = 0\<rparr>)
   \<and> insert_into_file \<lparr>content = ''a  b\<newline>c'', writes = 0\<rparr> 3 ''c'' After ''new'' =
     (Inl (LineNotInFile 3 2), \<lparr>content = ''a  b\<newline>c'', writes = 0\<rparr>)"
proof -
  have sp: "split_lines ''a  b\<newline>c'' = [''a  b'', ''c'']" by code_simp
  have n1: "normalizeContent ''a  b'' = ''a b''" by code_simp
  have n2: "normalizeContent '' a b '' = ''a b''" by code_simp
  have n3: "normalizeContent ''zzz'' = ''zzz''" by code_simp
  show ?thesis
    using
      insert_at_zero_skips_verification
        [of "\<lparr>content = ''a  b\<newline>c'', writes = 0\<rparr>" "''zzz''" Before "''new''" 1]
      insert_at_zero_skips_verification
        [of "\<lparr>content = ''a  b\<newline>c'', writes = 0\<rparr>" "'' a b ''" After "''new''" 1]
      insert_at_zero_skips_verification
        [of "\<lparr>content = ''a  b\<newline>c'', writes = 0\<rparr>" "''zzz''" After "''new''" 1]
      insert_at_zero_skips_verification
        [of "\<lparr>content = ''a  b\<newline>c'', writes = 0\<rparr>" "''c''" After "''new''" 3]
    by (simp add: sp n1 n2 n3)
qed

section \<open>replace_in_file\<close>

text \<open>
  C8. For a pattern the engine accepts: with no occurrence in the file the call fails
  with the no-match error and the file is as it was; with more than one occurrence and
  \<open>multiple\<close> not set to true it fails with the error carrying the number of
  occurrences and the file is as it was; otherwise the file is written once with the
  engine's global replacement and the message carries the number of occurrences.
\<close>

theorem replace_in_file_cases:
  assumes "compile eng regex_source = Some r"
  shows
    "(match_all eng r (content fs) = [] \<longrightarrow>
        replace_in_file eng fs regex_source target multiple = (Inl NoMatchesFound, fs))
   \<and> (1 < length (match_all eng r (content fs)) \<and> multiple \<noteq> Some True \<longrightarrow>
        replace_in_file eng fs regex_source target multiple =
          (Inl (MultipleMatchesFound (length (match_all eng r (content fs)))), fs))
   \<and> (match_all eng r (content fs) \<noteq> []
      \<and> (length (match_all eng r (content fs)) = 1 \<or> multiple = Some True) \<longrightarrow>
        replace_in_file eng fs regex_source target multiple =
          (Inr (length (match_all eng r (content fs))),
           \<lparr>content = replace_all eng r (content fs) target, writes = writes fs + 1\<rparr>))"
  using assms by (auto simp: replace_in_file_def Let_def)

theorem replace_in_file_cases_witness:
  "compile char_engine ''b'' = Some (CHR ''b'')
   \<and> replace_in_file char_engine \<lparr>content = ''ac'', writes = 0\<rparr> ''b'' ''xy'' (Some True)
       = (Inl NoMatchesFound, \<lparr>content = ''ac'', writes = 0\<rparr>)
   \<and> replace_in_file char_engine \<lparr>content = ''abcb'', writes = 0\<rparr> ''b'' ''xy'' None
       = (Inl (MultipleMatchesFound 2), \<lparr>content = ''abcb'', writes = 0\<rparr>)
   \<and> replace_in_file char_engine \<lparr>content = ''abcb'', writes = 0\<rparr> ''b'' ''xy'' (Some True)
       = (Inr 2, \<lparr>content = ''axycxy'', writes = 1\<rparr>)"
proof -
  have c: "compile char_engine ''b'' = Some (CHR ''b'')"
    by (simp add: char_engine_def regex_special_def)
  show ?thesis
    using c
      replace_in_file_cases [OF c, of "\<lparr>content = ''ac'', writes = 0\<rparr>" "''xy''" "Some True"]
      replace_in_file_cases [OF c, of "\<lparr>content = ''abcb'', writes = 0\<rparr>" "''xy''" None]
      replace_in_file_cases [OF c, of "\<lparr>content = ''abcb'', writes = 0\<rparr>" "''xy''" "Some True"]
    by (simp add: char_engine_def)
qed

section \<open>matchesPattern against the glob contract\<close>

text \<open>
  C9. The translation turns \<open>*\<close> into \<open>.*\<close> and \<open>?\<close> into \<open>.\<close> and leaves every other
  character of the pattern as it is, so a dot of the pattern reaches the regular
  expression as a wildcard. The include pattern \<open>*.ts\<close> accepts the name \<open>xts\<close>, which
  the contract refuses: its dot matches no dot of the name.
\<close>

theorem matchesPattern_dot_is_wildcard:
  "matchesPattern ''xts'' (Some ''*.ts'') = Some True \<and> \<not> glob_contract ''*.ts'' ''xts''"
  by code_simp

section \<open>Overlapping ranges reject the whole batch\<close>

text \<open>
  C3, as the code has it. Let two different edits \<open>a\<close> and \<open>b\<close> of a batch satisfy
  \<open>a.line_start \<le> b.line_start \<le> a.line_end\<close>, and leave out the one case where they
  start on the same line and the range of \<open>b\<close> is inverted (\<open>b.line_start > b.line_end\<close>).
  Then the call fails as a whole with the overlap error and the file is returned as it
  was: no edit applied, nothing written. The line the error names is the \<open>line_start\<close>
  of an edit of the batch and is at most \<open>b.line_start\<close>; with line numbers from 1 on,
  as the schema has them, it is the start of an edit \<open>q\<close> that lies inside the range
  of another edit \<open>p\<close> of the batch, the two again outside the case left out.
\<close>

theorem overlapping_batch_rejected:
  assumes "i < length edits" and "j < length edits" and "i \<noteq> j"
    and "line_start (edits ! i) \<le> line_start (edits ! j)"
    and "line_start (edits ! j) \<le> line_end (edits ! i)"
    and "line_start (edits ! i) < line_start (edits ! j)
         \<or> line_start (edits ! j) \<le> line_end (edits ! j)"
  shows "\<exists>n. multireplace_lines_in_file fs edits = (Inl (OverlappingRanges n), fs)
           \<and> n \<in> line_start ` set edits \<and> n \<le> line_start (edits ! j)
           \<and> ((\<forall>e\<in>set edits. 1 \<le> line_start e) \<longrightarrow>
                (\<exists>p q. p < length edits \<and> q < length edits \<and> p \<noteq> q
                   \<and> line_start (edits ! q) = n
                   \<and> line_start (edits ! p) \<le> n \<and> n \<le> line_end (edits ! p)
                   \<and> (line_start (edits ! p) < n \<or> n \<le> line_end (edits ! q))))"
proof -
  let ?es = "sort_edits edits"
  let ?collide = "\<lambda>a b. line_start a \<le> line_start b \<and> line_start b \<le> line_end a
                \<and> (line_start a < line_start b \<or> line_start b \<le> line_end b)"
  let ?S = "\<lambda>n a b. line_start a < n \<and> line_start b < n
                \<longrightarrow> \<not> ?collide a b \<and> \<not> ?collide b a"
  have col: "?collide (edits ! i) (edits ! j)"
    using assms by simp
  have asc: "sorted_wrt (\<lambda>a b. line_start a \<le> line_start b) ?es"
    using sorted_starts_sort_edits [of edits] by (simp add: sorted_wrt_map)
  have clear: "\<not> (line_start (edits ! i) < n \<and> line_start (edits ! j) < n)"
    if sw: "sorted_wrt (\<lambda>a b. line_start a < n \<and> line_start b < n \<longrightarrow> line_end a < line_start b)
              ?es" for n
  proof -
    from sw asc have "sorted_wrt (\<lambda>a b. line_start a \<le> line_start b
        \<and> (line_start a < n \<and> line_start b < n \<longrightarrow> line_end a < line_start b)) ?es"
      by (simp add: sorted_wrt_conj)
    then have "sorted_wrt (?S n) ?es"
      by (rule sorted_wrt_mono_rel [rotated]) auto
    then have "sorted_wrt (?S n) edits"
      unfolding sort_edits_def using sorted_wrt_sort_key_sym [of "?S n" edit_key edits] by blast
    then have "?S n (edits ! i) (edits ! j)"
      using sorted_wrt_sym_nth [of "?S n" edits i j] assms(1-3) by blast
    with col show ?thesis by blast
  qed
  have "check_overlaps (- 1) ?es \<noteq> None"
  proof
    assume "check_overlaps (- 1) ?es = None"
    with sorted_starts_sort_edits
    have "sorted_wrt (\<lambda>a b. line_end a < line_start b) ?es"
      using check_overlaps_None by blast
    then have "sorted_wrt (\<lambda>a b. line_start a < line_start (edits ! j) + 1
          \<and> line_start b < line_start (edits ! j) + 1 \<longrightarrow> line_end a < line_start b) ?es"
      by (rule sorted_wrt_mono_rel [rotated]) simp
    from clear [OF this] assms(4) show False by simp
  qed
  then obtain err where e: "check_overlaps (- 1) ?es = Some err" by auto
  then obtain n where n: "err = OverlappingRanges n" and mem: "n \<in> line_start ` set ?es"
    using check_overlaps_Some by blast
  from e n sorted_starts_sort_edits
  have "sorted_wrt (\<lambda>a b. line_start a < n \<and> line_start b < n \<longrightarrow> line_end a < line_start b) ?es"
    using check_overlaps_before by blast
  from clear [OF this] assms(4) have low: "n \<le> line_start (edits ! j)" by linarith
  from e n have call: "multireplace_lines_in_file fs edits = (Inl (OverlappingRanges n), fs)"
    by (simp add: multireplace_lines_in_file_def)
  have named: "\<exists>p q. p < length edits \<and> q < length edits \<and> p \<noteq> q
                   \<and> line_start (edits ! q) = n
                   \<and> line_start (edits ! p) \<le> n \<and> n \<le> line_end (edits ! p)
                   \<and> (line_start (edits ! p) < n \<or> n \<le> line_end (edits ! q))"
    if pos: "\<forall>e\<in>set edits. 1 \<le> line_start e"
  proof -
    let ?T = "\<lambda>p q. line_start q = n \<and> line_start p \<le> n \<and> n \<le> line_end p
                \<and> (line_start p < n \<or> n \<le> line_end q)"
    let ?N = "\<lambda>p q. \<not> ?T p q \<and> \<not> ?T q p"
    have symN: "\<And>a b. ?N a b \<Longrightarrow> ?N b a" by blast
    from e n have "check_overlaps (- 1) ?es = Some (OverlappingRanges n)" by simp
    note pair = check_overlaps_Some_pair [OF this]
    have "\<not> (\<exists>x rest. ?es = x # rest \<and> n = line_start x \<and> n \<le> - 1)"
    proof
      assume "\<exists>x rest. ?es = x # rest \<and> n = line_start x \<and> n \<le> - 1"
      then obtain x rest where x: "?es = x # rest" "line_start x \<le> - 1" by auto
      then have "x \<in> set ?es" by simp
      then have "x \<in> set edits" by (simp add: sort_edits_def)
      with pos x(2) show False by fastforce
    qed
    with pair obtain k where k: "Suc k < length ?es" "n = line_start (?es ! Suc k)"
      "n \<le> line_end (?es ! k)"
      by blast
    have "sorted (map edit_key ?es)" by (simp add: sort_edits_def)
    then have "edit_key (?es ! k) \<le> edit_key (?es ! Suc k)"
      using k(1) sorted_nth_mono [of "map edit_key ?es" k "Suc k"] by simp
    with k have T: "?T (?es ! k) (?es ! Suc k)"
      by (auto simp: edit_key_def)
    have "\<not> sorted_wrt ?N ?es"
    proof
      assume "sorted_wrt ?N ?es"
      then have "?N (?es ! k) (?es ! Suc k)"
        using k(1) sorted_wrt_nth_less [of ?N ?es k "Suc k"] by blast
      with T show False by blast
    qed
    then have "\<not> sorted_wrt ?N edits"
      unfolding sort_edits_def using sorted_wrt_sort_key_sym [of ?N edit_key edits] by blast
    from not_sorted_wrt_sym_nth [of ?N, OF _ this]
    obtain p q where pq: "p < length edits" "q < length edits" "p \<noteq> q"
      and "\<not> ?N (edits ! p) (edits ! q)"
      by blast
    then have "?T (edits ! p) (edits ! q) \<or> ?T (edits ! q) (edits ! p)" by blast
    then show ?thesis
    proof
      assume "?T (edits ! p) (edits ! q)"
      with pq show ?thesis by blast
    next
      assume "?T (edits ! q) (edits ! p)"
      with pq have "q < length edits \<and> p < length edits \<and> q \<noteq> p \<and> ?T (edits ! q) (edits ! p)"
        by simp
      then show ?thesis by blast
    qed
  qed
  from mem have "n \<in> line_start ` set edits" by (simp add: sort_edits_def)
  with call low named show ?thesis by blast
qed


theorem overlapping_batch_rejected_witness:
  "multireplace_lines_in_file \<lparr>content = ''x\<newline>y'', writes = 0\<rparr>
       [\<lparr>line_start = 6, line_end = 7, line_start_contents = ''u'', contents = ''U''\<rparr>,
        \<lparr>line_start = 1, line_end = 1, line_start_contents = ''x'', contents = ''V''\<rparr>,
        \<lparr>line_start = 5, line_end = 8, line_start_contents = ''w'', contents = ''W''\<rparr>]
     = (Inl (OverlappingRanges 6), \<lparr>content = ''x\<newline>y'', writes = 0\<rparr>)
   \<and> (\<exists>p q. p < 3 \<and> q < 3 \<and> p \<noteq> q
         \<and> line_start
              ([\<lparr>line_start = 6, line_end = 7, line_start_contents = ''u'', contents = ''U''\<rparr>,
                \<lparr>line_start = 1, line_end = 1, line_start_contents = ''x'', contents = ''V''\<rparr>,
                \<lparr>line_start = 5, line_end = 8, line_start_contents = ''w'', contents = ''W''\<rparr>]
               ! q) = 6
         \<and> line_start
              ([\<lparr>line_start = 6, line_end = 7, line_start_contents = ''u'', contents = ''U''\<rparr>,
                \<lparr>line_start = 1, line_end = 1, line_start_contents = ''x'', contents = ''V''\<rparr>,
                \<lparr>line_start = 5, line_end = 8, line_start_contents = ''w'', contents = ''W''\<rparr>]
               ! p) \<le> 6
         \<and> 6 \<le> line_end
              ([\<lparr>line_start = 6, line_end = 7, line_start_contents = ''u'', contents = ''U''\<rparr>,
                \<lparr>line_start = 1, line_end = 1, line_start_contents = ''x'', contents = ''V''\<rparr>,
                \<lparr>line_start = 5, line_end = 8, line_start_contents = ''w'', contents = ''W''\<rparr>]
               ! p))
   \<and> multireplace_lines_in_file \<lparr>content = ''x\<newline>y'', writes = 0\<rparr>
       [\<lparr>line_start = 1, line_end = 3, line_start_contents = ''x'', contents = ''U''\<rparr>,
        \<lparr>line_start = 3, line_end = 1, line_start_contents = ''y'', contents = ''V''\<rparr>]
     = (Inl (OverlappingRanges 3), \<lparr>content = ''x\<newline>y'', writes = 0\<rparr>)"
proof -
  let ?fs = "\<lparr>content = ''x\<newline>y'', writes = 0\<rparr>"
  let ?es = "[\<lparr>line_start = 6, line_end = 7, line_start_contents = ''u'', contents = ''U''\<rparr>,
        \<lparr>line_start = 1, line_end = 1, line_start_contents = ''x'', contents = ''V''\<rparr>,
        \<lparr>line_start = 5, line_end = 8, line_start_contents = ''w'', contents = ''W''\<rparr>]"
  let ?es2 = "[\<lparr>line_start = 1, line_end = 3, line_start_contents = ''x'', contents = ''U''\<rparr>,
        \<lparr>line_start = 3, line_end = 1, line_start_contents = ''y'', contents = ''V''\<rparr>]"
  have run: "multireplace_lines_in_file ?fs ?es = (Inl (OverlappingRanges 6), ?fs)"
    by code_simp
  have "\<exists>n. multireplace_lines_in_file ?fs ?es = (Inl (OverlappingRanges n), ?fs)
           \<and> n \<in> line_start ` set ?es \<and> n \<le> line_start (?es ! 0)
           \<and> ((\<forall>e\<in>set ?es. 1 \<le> line_start e) \<longrightarrow>
                (\<exists>p q. p < length ?es \<and> q < length ?es \<and> p \<noteq> q
                   \<and> line_start (?es ! q) = n
                   \<and> line_start (?es ! p) \<le> n \<and> n \<le> line_end (?es ! p)
                   \<and> (line_start (?es ! p) < n \<or> n \<le> line_end (?es ! q))))"
    by (rule overlapping_batch_rejected [of 2 _ 0]) simp_all
  then obtain n where n: "multireplace_lines_in_file ?fs ?es = (Inl (OverlappingRanges n), ?fs)"
    and named: "(\<forall>e\<in>set ?es. 1 \<le> line_start e) \<longrightarrow>
                (\<exists>p q. p < length ?es \<and> q < length ?es \<and> p \<noteq> q
                   \<and> line_start (?es ! q) = n
                   \<and> line_start (?es ! p) \<le> n \<and> n \<le> line_end (?es ! p)
                   \<and> (line_start (?es ! p) < n \<or> n \<le> line_end (?es ! q)))"
    by blast
  from n run have n6: "n = 6" by simp
  have "\<forall>e\<in>set ?es. 1 \<le> line_start e" by simp
  with named obtain p q where "p < length ?es" "q < length ?es" "p \<noteq> q"
    "line_start (?es ! q) = n" "line_start (?es ! p) \<le> n" "n \<le> line_end (?es ! p)"
    by blast
  then have pair: "\<exists>p q. p < 3 \<and> q < 3 \<and> p \<noteq> q \<and> line_start (?es ! q) = 6
      \<and> line_start (?es ! p) \<le> 6 \<and> 6 \<le> line_end (?es ! p)"
    unfolding n6 by (intro exI [of _ p] exI [of _ q]) simp
  have run2: "multireplace_lines_in_file ?fs ?es2 = (Inl (OverlappingRanges 3), ?fs)"
    by code_simp
  have "\<exists>n. multireplace_lines_in_file ?fs ?es2 = (Inl (OverlappingRanges n), ?fs)
           \<and> n \<in> line_start ` set ?es2 \<and> n \<le> line_start (?es2 ! 1)
           \<and> ((\<forall>e\<in>set ?es2. 1 \<le> line_start e) \<longrightarrow>
                (\<exists>p q. p < length ?es2 \<and> q < length ?es2 \<and> p \<noteq> q
                   \<and> line_start (?es2 ! q) = n
                   \<and> line_start (?es2 ! p) \<le> n \<and> n \<le> line_end (?es2 ! p)
                   \<and> (line_start (?es2 ! p) < n \<or> n \<le> line_end (?es2 ! q))))"
    by (rule overlapping_batch_rejected [of 0 _ 1]) simp_all
  from run pair run2 show ?thesis by (intro conjI)
qed

text \<open>
  C3 as stated fails in the case left out: on the file \<open>x, y\<close> the edits \<open>a = 2-2\<close> and
  \<open>b = 2-1\<close> satisfy \<open>a.line_start \<le> b.line_start \<le> a.line_end\<close>, the sort puts \<open>b\<close>
  first, the overlap check passes, \<open>b\<close> fails alone as an invalid range and \<open>a\<close> is
  applied and written.
\<close>

theorem overlap_with_inverted_range_counterexample:
  "line_start \<lparr>line_start = 2, line_end = 2, line_start_contents = ''y'', contents = ''Y''\<rparr>
     \<le> line_start \<lparr>line_start = 2, line_end = 1, line_start_contents = ''y'', contents = ''Z''\<rparr>
   \<and> line_start \<lparr>line_start = 2, line_end = 1, line_start_contents = ''y'', contents = ''Z''\<rparr>
     \<le> line_end \<lparr>line_start = 2, line_end = 2, line_start_contents = ''y'', contents = ''Y''\<rparr>
   \<and> multireplace_lines_in_file \<lparr>content = ''x\<newline>y'', writes = 0\<rparr>
       [\<lparr>line_start = 2, line_end = 2, line_start_contents = ''y'', contents = ''Y''\<rparr>,
        \<lparr>line_start = 2, line_end = 1, line_start_contents = ''y'', contents = ''Z''\<rparr>]
     = (Inr \<lparr>successful = 1, failed = 1,
             outcomes =
               [\<lparr>index = 0, success = False, error = Some InvalidRange,
                 res_line_start = 2, res_line_end = 1, shift = None\<rparr>,
                \<lparr>index = 1, success = True, error = None,
                 res_line_start = 2, res_line_end = 2, shift = Some 0\<rparr>]\<rparr>,
        \<lparr>content = ''x\<newline>Y'', writes = 1\<rparr>)"
  by code_simp

section \<open>A failing edit is isolated\<close>

text \<open>
  C5. Take a batch \<open>xs @ f # ys\<close> that passes the overlap check. In the processing
  order the edit \<open>f\<close> sits at a position \<open>length A\<close>, and the batch without it,
  \<open>xs @ ys\<close>, is processed in the same order with that position left out. If the
  outcome of \<open>f\<close> is a failure, processing \<open>f\<close> returns the working buffer and the
  ledger it was given, and the batch without \<open>f\<close> passes the overlap check too, writes
  the same file, and gives every other edit the same outcome (success, error, range
  and shift; only the running index of the later ones is one less).
\<close>

theorem failing_edit_isolated:
  assumes "multireplace_lines_in_file fs (xs @ f # ys) = (Inr rep, fs')"
  shows "\<exists>A B. sort_edits (xs @ f # ys) = A @ f # B \<and> sort_edits (xs @ ys) = A @ B
    \<and> (\<not> success (outcomes rep ! length A) \<longrightarrow>
         fst (process_edits (split_lines (content fs)) (length A)
                (fst (process_edits (split_lines (content fs)) 0
                        \<lparr>workingLines = split_lines (content fs), lineShifts = []\<rparr> A))
                [f])
           = fst (process_edits (split_lines (content fs)) 0
                    \<lparr>workingLines = split_lines (content fs), lineShifts = []\<rparr> A)
       \<and> (\<exists>rep'. multireplace_lines_in_file fs (xs @ ys) = (Inr rep', fs')
            \<and> map (\<lambda>r. (success r, error r, res_line_start r, res_line_end r, shift r))
                  (outcomes rep')
              = map (\<lambda>r. (success r, error r, res_line_start r, res_line_end r, shift r))
                  (take (length A) (outcomes rep) @ drop (Suc (length A)) (outcomes rep))
            \<and> successful rep' = successful rep \<and> Suc (failed rep') = failed rep))"
proof -
  let ?orig = "split_lines (content fs)"
  let ?st0 = "\<lparr>workingLines = ?orig, lineShifts = []\<rparr>"
  let ?v = "\<lambda>r. (success r, error r, res_line_start r, res_line_end r, shift r)"
  obtain A B where ab: "sort_edits (xs @ f # ys) = A @ f # B" "sort_edits (xs @ ys) = A @ B"
    unfolding sort_edits_def using sort_key_remove_middle [of edit_key xs f ys] by blast
  from assms obtain st where
    chk: "check_overlaps (- 1) (sort_edits (xs @ f # ys)) = None"
    and run: "process_edits ?orig 0 ?st0 (sort_edits (xs @ f # ys)) = (st, outcomes rep)"
    and fs': "fs' = \<lparr>content = join_lines (workingLines st), writes = writes fs + 1\<rparr>"
    and cnt: "successful rep = length (filter success (outcomes rep))"
             "failed rep = length (filter (\<lambda>r. \<not> success r) (outcomes rep))"
    by (rule multireplace_Inr)
  let ?mid = "fst (process_edits ?orig 0 ?st0 A)"
  let ?rA = "snd (process_edits ?orig 0 ?st0 A)"
  let ?pf = "process_edits ?orig (length A) ?mid (f # B)"
  have lenA: "length ?rA = length A" by (rule process_edits_length)
  from run ab have split: "st = fst ?pf" "outcomes rep = ?rA @ snd ?pf"
    by (simp_all add: process_edits_append split_beta)
  have "snd ?pf \<noteq> []"
    using process_edits_length [of ?orig "length A" ?mid "f # B"] by auto
  then have at: "outcomes rep ! length A = hd (snd ?pf)"
    using split lenA by (simp add: nth_append hd_conv_nth)
  have iso: "fst (process_edits ?orig (length A) ?mid [f]) = ?mid
       \<and> (\<exists>rep'. multireplace_lines_in_file fs (xs @ ys) = (Inr rep', fs')
            \<and> map ?v (outcomes rep')
              = map ?v (take (length A) (outcomes rep) @ drop (Suc (length A)) (outcomes rep))
            \<and> successful rep' = successful rep \<and> Suc (failed rep') = failed rep)"
    if fail: "\<not> success (outcomes rep ! length A)"
  proof -
    from fail at have fh: "\<not> success (hd (snd ?pf))" by simp
    let ?pB = "process_edits ?orig (Suc (length A)) ?mid B"
    from process_edits_failed_head [OF fh]
    obtain rf where rf: "\<not> success rf" and pf: "?pf = (fst ?pB, rf # snd ?pB)"
      by blast
    have stay: "fst (process_edits ?orig (length A) ?mid [f]) = ?mid"
    proof (cases "apply_edit ?orig ?mid f")
      case (Inl err)
      then show ?thesis by simp
    next
      case (Inr p)
      then have "success (hd (snd ?pf))" by (cases p) (simp add: split_beta)
      with fh show ?thesis by simp
    qed
    let ?pB' = "process_edits ?orig (length A) ?mid B"
    from process_edits_reindex [of ?orig "length A" ?mid B "Suc (length A)"]
    have re: "fst ?pB' = fst ?pB" "map ?v (snd ?pB') = map ?v (snd ?pB)"
      by simp_all
    have out: "outcomes rep = ?rA @ rf # snd ?pB" and st: "st = fst ?pB"
      using split pf by (simp_all del: process_edits.simps)
    let ?rep' = "\<lparr>successful = length (filter success (?rA @ snd ?pB')),
                  failed = length (filter (\<lambda>r. \<not> success r) (?rA @ snd ?pB')),
                  outcomes = ?rA @ snd ?pB'\<rparr>"
    have chk': "check_overlaps (- 1) (sort_edits (xs @ ys)) = None"
      using chk ab sorted_starts_sort_edits [of "xs @ f # ys"]
      by (simp add: check_overlaps_remove)
    have run': "process_edits ?orig 0 ?st0 (sort_edits (xs @ ys)) = (st, ?rA @ snd ?pB')"
      using ab re st by (simp add: process_edits_append split_beta)
    have call: "multireplace_lines_in_file fs (xs @ ys) = (Inr ?rep', fs')"
      using chk' run' fs' by (simp add: multireplace_lines_in_file_def Let_def)
    have verd: "map ?v (outcomes ?rep')
        = map ?v (take (length A) (outcomes rep) @ drop (Suc (length A)) (outcomes rep))"
      using out lenA re by simp
    have fl: "length (filter success rs) = length (filter fst (map ?v rs))" for rs
      by (induction rs) auto
    have fl': "length (filter (\<lambda>r. \<not> success r) rs) = length (filter (\<lambda>p. \<not> fst p) (map ?v rs))"
      for rs by (induction rs) auto
    have s1: "successful ?rep' = successful rep"
      using cnt out rf re(2) fl [of "snd ?pB'"] fl [of "snd ?pB"] by simp
    have s2: "Suc (failed ?rep') = failed rep"
      using cnt out rf re(2) fl' [of "snd ?pB'"] fl' [of "snd ?pB"] by simp
    from stay call verd s1 s2 show ?thesis by blast
  qed
  from ab iso show ?thesis by blast
qed


theorem failing_edit_isolated_witness:
  "multireplace_lines_in_file \<lparr>content = ''a\<newline>b\<newline>c'', writes = 0\<rparr>
     ([\<lparr>line_start = 3, line_end = 3, line_start_contents = ''c'', contents = ''X\<newline>Y''\<rparr>]
      @ \<lparr>line_start = 2, line_end = 2, line_start_contents = ''wrong'', contents = ''W''\<rparr>
      # [\<lparr>line_start = 1, line_end = 1, line_start_contents = ''a'', contents = ''Z''\<rparr>])
   = (Inr \<lparr>successful = 2, failed = 1,
          outcomes =
            [\<lparr>index = 0, success = True, error = None,
              res_line_start = 1, res_line_end = 1, shift = Some 0\<rparr>,
             \<lparr>index = 1, success = False, error = Some (ContentMismatch 2 ''wrong'' ''b''),
              res_line_start = 2, res_line_end = 2, shift = None\<rparr>,
             \<lparr>index = 2, success = True, error = None,
              res_line_start = 3, res_line_end = 3, shift = Some 1\<rparr>]\<rparr>,
      \<lparr>content = ''Z\<newline>b\<newline>X\<newline>Y'', writes = 1\<rparr>)
   \<and> snd (multireplace_lines_in_file \<lparr>content = ''a\<newline>b\<newline>c'', writes = 0\<rparr>
     ([\<lparr>line_start = 3, line_end = 3, line_start_contents = ''c'', contents = ''X\<newline>Y''\<rparr>]
      @ [\<lparr>line_start = 1, line_end = 1, line_start_contents = ''a'', contents = ''Z''\<rparr>]))
     = \<lparr>content = ''Z\<newline>b\<newline>X\<newline>Y'', writes = 1\<rparr>"
proof -
  let ?fs = "\<lparr>content = ''a\<newline>b\<newline>c'', writes = 0\<rparr>"
  let ?e3 = "\<lparr>line_start = 3, line_end = 3, line_start_contents = ''c'', contents = ''X\<newline>Y''\<rparr>"
  let ?f = "\<lparr>line_start = 2, line_end = 2, line_start_contents = ''wrong'', contents = ''W''\<rparr>"
  let ?e1 = "\<lparr>line_start = 1, line_end = 1, line_start_contents = ''a'', contents = ''Z''\<rparr>"
  let ?rep = "\<lparr>successful = 2, failed = 1,
          outcomes =
            [\<lparr>index = 0, success = True, error = None,
              res_line_start = 1, res_line_end = 1, shift = Some 0\<rparr>,
             \<lparr>index = 1, success = False, error = Some (ContentMismatch 2 ''wrong'' ''b''),
              res_line_start = 2, res_line_end = 2, shift = None\<rparr>,
             \<lparr>index = 2, success = True, error = None,
              res_line_start = 3, res_line_end = 3, shift = Some 1\<rparr>]\<rparr>"
  let ?fs' = "\<lparr>content = ''Z\<newline>b\<newline>X\<newline>Y'', writes = 1\<rparr>"
  have run: "multireplace_lines_in_file ?fs ([?e3] @ ?f # [?e1]) = (Inr ?rep, ?fs')"
    by code_simp
  have srt: "sort_edits ([?e3] @ ?f # [?e1]) = [?e1, ?f, ?e3]"
    by code_simp
  from failing_edit_isolated [OF run] obtain A B where
    ab: "sort_edits ([?e3] @ ?f # [?e1]) = A @ ?f # B"
    and imp: "\<not> success (outcomes ?rep ! length A) \<longrightarrow>
       (\<exists>rep'. multireplace_lines_in_file ?fs ([?e3] @ [?e1]) = (Inr rep', ?fs'))"
    by blast
  from ab srt have "[?e1, ?f, ?e3] = A @ ?f # B" by simp
  then have "A = [?e1]"
    by (auto simp: Cons_eq_append_conv)
  with imp have "\<exists>rep'. multireplace_lines_in_file ?fs ([?e3] @ [?e1]) = (Inr rep', ?fs')"
    by simp
  then have "snd (multireplace_lines_in_file ?fs ([?e3] @ [?e1])) = ?fs'"
    by auto
  with run show ?thesis by blast
qed

section \<open>Shift correctness\<close>

text \<open>
  C4. Take a batch that passes the overlap check and in which no edit fails, on a file
  of \<open>L\<close> lines. The committed file has \<open>L\<close> plus the sum of the shifts of the edits
  lines, the shift reported for each edit is its number of replacement lines minus
  \<open>line_end - line_start + 1\<close>, and every original line \<open>p\<close> that lies in no edited range
  is in the committed file, unchanged, at line \<open>p\<close> plus the shifts of the edits that
  end before it.
\<close>

theorem shift_correctness:
  assumes "multireplace_lines_in_file fs edits = (Inr rep, fs')" and "failed rep = 0"
  shows "int (length (split_lines (content fs')))
           = int (length (split_lines (content fs))) + sum_list (map edit_shift edits)
    \<and> map shift (outcomes rep) = map (\<lambda>e. Some (edit_shift e)) (sort_edits edits)
    \<and> (\<forall>p. 1 \<le> p \<and> p \<le> int (length (split_lines (content fs)))
            \<and> (\<forall>e\<in>set edits. \<not> (line_start e \<le> p \<and> p \<le> line_end e))
          \<longrightarrow> 0 \<le> p - 1 + sum_list (map edit_shift (filter (\<lambda>e. line_end e < p) edits))
            \<and> nat (p - 1 + sum_list (map edit_shift (filter (\<lambda>e. line_end e < p) edits)))
                < length (split_lines (content fs'))
            \<and> split_lines (content fs')
                ! nat (p - 1 + sum_list (map edit_shift (filter (\<lambda>e. line_end e < p) edits)))
              = split_lines (content fs) ! nat (p - 1))"
proof -
  let ?orig = "split_lines (content fs)"
  let ?st0 = "\<lparr>workingLines = ?orig, lineShifts = []\<rparr>"
  let ?es = "sort_edits edits"
  from assms(1) obtain st where
    chk: "check_overlaps (- 1) ?es = None"
    and run: "process_edits ?orig 0 ?st0 ?es = (st, outcomes rep)"
    and fs': "fs' = \<lparr>content = join_lines (workingLines st), writes = writes fs + 1\<rparr>"
    and cnt: "failed rep = length (filter (\<lambda>r. \<not> success r) (outcomes rep))"
    by (rule multireplace_Inr)
  from cnt assms(2) have ok: "\<forall>r\<in>set (outcomes rep). success r"
    by (simp add: filter_empty_conv)
  have apart: "sorted_wrt (\<lambda>a b. line_end a < line_start b) ?es"
    using check_overlaps_None [OF sorted_starts_sort_edits chk] by simp
  have pos: "\<forall>e\<in>set ?es. int 0 < line_start e"
    using process_edits_success_checks [OF run ok] by auto
  have reb: "workingLines st = [] @ rebuild ?orig 0 ?es
       \<and> map shift (outcomes rep) = map (\<lambda>e. Some (edit_shift e)) ?es
       \<and> (\<forall>e\<in>set ?es. 1 \<le> line_start e \<and> line_start e \<le> line_end e
                       \<and> line_end e \<le> int (length ?orig))"
    by (rule process_edits_rebuild [OF run ok apart pos]) simp_all
  then have w: "workingLines st = rebuild ?orig 0 ?es"
    and wf: "\<forall>e\<in>set ?es. int 0 < line_start e \<and> line_start e \<le> line_end e
                       \<and> line_end e \<le> int (length ?orig)"
    by auto
  have "\<forall>l\<in>set (rebuild ?orig 0 ?es). CHR 0x0A \<notin> set l"
    using set_rebuild [of ?orig 0 ?es] split_lines_no_newline by blast
  then have final: "split_lines (content fs') = rebuild ?orig 0 ?es"
    using fs' w by (simp add: split_join_lines rebuild_not_Nil split_lines_not_Nil)
  have len: "int (length (split_lines (content fs')))
           = int (length ?orig) + sum_list (map edit_shift edits)"
    using length_rebuild [OF apart wf] final
    by (simp add: sort_edits_def sum_list_sort_key)
  have keep: "0 \<le> p - 1 + sum_list (map edit_shift (filter (\<lambda>e. line_end e < p) edits))
            \<and> nat (p - 1 + sum_list (map edit_shift (filter (\<lambda>e. line_end e < p) edits)))
                < length (split_lines (content fs'))
            \<and> split_lines (content fs')
                ! nat (p - 1 + sum_list (map edit_shift (filter (\<lambda>e. line_end e < p) edits)))
              = ?orig ! nat (p - 1)"
    if p: "1 \<le> p \<and> p \<le> int (length ?orig)
            \<and> (\<forall>e\<in>set edits. \<not> (line_start e \<le> p \<and> p \<le> line_end e))" for p
  proof -
    have out: "\<forall>e\<in>set ?es. \<not> (line_start e \<le> p \<and> p \<le> line_end e)"
      using p by (simp add: sort_edits_def)
    have sm: "sum_list (map edit_shift (filter (\<lambda>e. line_end e < p) ?es))
            = sum_list (map edit_shift (filter (\<lambda>e. line_end e < p) edits))"
      by (simp add: sort_edits_def filter_sort sum_list_sort_key)
    have "int 0 < p" and "p \<le> int (length ?orig)" using p by simp_all
    from rebuild_keeps_line [OF apart wf this out]
    show ?thesis unfolding final sm by simp
  qed
  from len reb keep show ?thesis by blast
qed


theorem shift_correctness_witness:
  "multireplace_lines_in_file \<lparr>content = ''a\<newline>b\<newline>c\<newline>d\<newline>e'', writes = 0\<rparr>
     [\<lparr>line_start = 4, line_end = 4, line_start_contents = ''d'', contents = ''X\<newline>Y\<newline>Z''\<rparr>,
      \<lparr>line_start = 1, line_end = 2, line_start_contents = ''a'', contents = ''Q''\<rparr>]
   = (Inr \<lparr>successful = 2, failed = 0,
          outcomes =
            [\<lparr>index = 0, success = True, error = None,
              res_line_start = 1, res_line_end = 2, shift = Some (- 1)\<rparr>,
             \<lparr>index = 1, success = True, error = None,
              res_line_start = 4, res_line_end = 4, shift = Some 2\<rparr>]\<rparr>,
      \<lparr>content = ''Q\<newline>c\<newline>X\<newline>Y\<newline>Z\<newline>e'', writes = 1\<rparr>)
   \<and> int (length (split_lines ''Q\<newline>c\<newline>X\<newline>Y\<newline>Z\<newline>e'')) = 5 + (2 + - 1)
   \<and> split_lines ''Q\<newline>c\<newline>X\<newline>Y\<newline>Z\<newline>e'' ! nat (3 - 1 + - 1)
       = split_lines ''a\<newline>b\<newline>c\<newline>d\<newline>e'' ! nat (3 - 1)"
proof -
  let ?fs = "\<lparr>content = ''a\<newline>b\<newline>c\<newline>d\<newline>e'', writes = 0\<rparr>"
  let ?e4 = "\<lparr>line_start = 4, line_end = 4, line_start_contents = ''d'', contents = ''X\<newline>Y\<newline>Z''\<rparr>"
  let ?e1 = "\<lparr>line_start = 1, line_end = 2, line_start_contents = ''a'', contents = ''Q''\<rparr>"
  let ?rep = "\<lparr>successful = 2, failed = 0,
          outcomes =
            [\<lparr>index = 0, success = True, error = None,
              res_line_start = 1, res_line_end = 2, shift = Some (- 1)\<rparr>,
             \<lparr>index = 1, success = True, error = None,
              res_line_start = 4, res_line_end = 4, shift = Some 2\<rparr>]\<rparr>"
  let ?fs' = "\<lparr>content = ''Q\<newline>c\<newline>X\<newline>Y\<newline>Z\<newline>e'', writes = 1\<rparr>"
  have run: "multireplace_lines_in_file ?fs [?e4, ?e1] = (Inr ?rep, ?fs')"
    by code_simp
  have none_failed: "failed ?rep = 0" by simp
  note t = shift_correctness [OF run none_failed]
  have l: "length (split_lines (content ?fs)) = 5" by code_simp
  have s4: "edit_shift ?e4 = 2" and s1: "edit_shift ?e1 = - 1" by code_simp+
  from t have "int (length (split_lines (content ?fs')))
      = int (length (split_lines (content ?fs))) + sum_list (map edit_shift [?e4, ?e1])"
    by blast
  then have len: "int (length (split_lines ''Q\<newline>c\<newline>X\<newline>Y\<newline>Z\<newline>e'')) = 5 + (2 + - 1)"
    using l s4 s1 by simp
  from t have "1 \<le> (3::int) \<and> 3 \<le> int (length (split_lines (content ?fs)))
            \<and> (\<forall>e\<in>set [?e4, ?e1]. \<not> (line_start e \<le> 3 \<and> 3 \<le> line_end e))
          \<longrightarrow> split_lines (content ?fs')
                ! nat (3 - 1 + sum_list (map edit_shift (filter (\<lambda>e. line_end e < 3) [?e4, ?e1])))
              = split_lines (content ?fs) ! nat (3 - 1)"
    by blast
  then have "split_lines ''Q\<newline>c\<newline>X\<newline>Y\<newline>Z\<newline>e'' ! nat (3 - 1 + - 1)
       = split_lines ''a\<newline>b\<newline>c\<newline>d\<newline>e'' ! nat (3 - 1)"
    using l s1 by simp
  with run len show ?thesis by blast
qed

end
